theory Spec2Isabelle
  imports Complex_Main "HOL-Library.Word" "HOL-Library.Log_Nat" "HOL-Library.Multiset"
begin

section \<open>The type \<open>float\<close> of the kernels: IEEE-754 binary32\<close>

text \<open>
  A CUDA \<^verbatim>\<open>float\<close> is a 32-bit pattern: one sign bit and a 31-bit magnitude (8 bits of biased
  exponent above 23 bits of fraction).  Arithmetic is round-to-nearest, ties-to-even, with
  subnormals, infinities and NaN.  Every NaN an operation produces is the one quiet NaN
  \<open>f_nan\<close>; no kernel of this repository inspects a NaN payload.  The C++ expressions are
  modelled as they are written, one rounding per operator; a compiler that fuses the
  multiplication and the addition of the proposal changes at most its last bit, and no
  property below depends on how the proposal is rounded.
\<close>

datatype f32 = F32 (sign_bit: bool) (magnitude: "31 word")

definition mag :: "f32 \<Rightarrow> int" where
  "mag x = uint (magnitude x)"

definition inf_code :: int where
  "inf_code = 255 * 2 ^ 23"

definition is_nan :: "f32 \<Rightarrow> bool" where
  "is_nan x \<longleftrightarrow> inf_code < mag x"

definition is_inf :: "f32 \<Rightarrow> bool" where
  "is_inf x \<longleftrightarrow> mag x = inf_code"


definition is_zero :: "f32 \<Rightarrow> bool" where
  "is_zero x \<longleftrightarrow> mag x = 0"

definition mantissa :: "f32 \<Rightarrow> int" where
  "mantissa x = (if mag x div 2 ^ 23 = 0 then mag x mod 2 ^ 23 else 2 ^ 23 + mag x mod 2 ^ 23)"

definition exponent :: "f32 \<Rightarrow> int" where
  "exponent x = (if mag x div 2 ^ 23 = 0 then - 149 else mag x div 2 ^ 23 - 150)"

text \<open>The real number a finite pattern stands for: \<open>\<plusminus> mantissa * 2 ^ exponent\<close>.\<close>

definition valof :: "f32 \<Rightarrow> real" where
  "valof x = (if sign_bit x then - 1 else 1) * real_of_int (mantissa x) * 2 powi (exponent x)"

definition f_nan :: f32 where
  "f_nan = F32 False (word_of_int (inf_code + 2 ^ 22))"

definition f_inf :: "bool \<Rightarrow> f32" where
  "f_inf s = F32 s (word_of_int inf_code)"

definition f_zero :: "bool \<Rightarrow> f32" where
  "f_zero s = F32 s 0"

definition f_one :: f32 where
  "f_one = F32 False (word_of_int (127 * 2 ^ 23))"

subsection \<open>Rounding a positive rational \<open>P / Q\<close> to the nearest magnitude\<close>

definition round_half_even :: "int \<Rightarrow> int \<Rightarrow> int" where
  "round_half_even P Q =
     (let q = P div Q; r = P mod Q
      in if Q < 2 * r \<or> (2 * r = Q \<and> odd q) then q + 1 else q)"

definition floor_log2 :: "int \<Rightarrow> int \<Rightarrow> int" where
  "floor_log2 P Q =
     (let l = bitlen P - bitlen Q
      in if Q * 2 ^ nat l \<le> P * 2 ^ nat (- l) then l else l - 1)"

definition round_mag :: "int \<Rightarrow> int \<Rightarrow> int" where
  "round_mag P Q =
     (if P = 0 then 0
      else let e = max (- 126) (floor_log2 P Q);
               m = round_half_even (P * 2 ^ nat (23 - e)) (Q * 2 ^ nat (e - 23))
           in min inf_code ((e + 126) * 2 ^ 23 + m))"

definition f_round :: "bool \<Rightarrow> int \<Rightarrow> int \<Rightarrow> f32" where
  "f_round s P Q = F32 s (word_of_int (round_mag P Q))"

subsection \<open>The operators the kernels use\<close>

definition fmul :: "f32 \<Rightarrow> f32 \<Rightarrow> f32" where
  "fmul a b =
     (if is_nan a \<or> is_nan b \<or> (is_zero a \<and> is_inf b) \<or> (is_inf a \<and> is_zero b) then f_nan
      else let s = (sign_bit a \<noteq> sign_bit b)
           in if is_inf a \<or> is_inf b then f_inf s
              else let k = exponent a + exponent b
                   in f_round s (mantissa a * mantissa b * 2 ^ nat k) (2 ^ nat (- k)))"

definition fdiv :: "f32 \<Rightarrow> f32 \<Rightarrow> f32" where
  "fdiv a b =
     (if is_nan a \<or> is_nan b \<or> (is_zero a \<and> is_zero b) \<or> (is_inf a \<and> is_inf b) then f_nan
      else let s = (sign_bit a \<noteq> sign_bit b)
           in if is_inf a \<or> is_zero b then f_inf s
              else if is_inf b then f_zero s
              else let k = exponent a - exponent b
                   in f_round s (mantissa a * 2 ^ nat k) (mantissa b * 2 ^ nat (- k)))"

definition fadd :: "f32 \<Rightarrow> f32 \<Rightarrow> f32" where
  "fadd a b =
     (if is_nan a \<or> is_nan b \<or> (is_inf a \<and> is_inf b \<and> sign_bit a \<noteq> sign_bit b) then f_nan
      else if is_inf a then a
      else if is_inf b then b
      else let e = min (exponent a) (exponent b);
               x = (if sign_bit a then - 1 else 1) * mantissa a * 2 ^ nat (exponent a - e);
               y = (if sign_bit b then - 1 else 1) * mantissa b * 2 ^ nat (exponent b - e);
               t = x + y
           in if t = 0 then f_zero (sign_bit a \<and> sign_bit b)
              else f_round (t < 0) (\<bar>t\<bar> * 2 ^ nat e) (2 ^ nat (- e)))"

text \<open>The comparison \<^verbatim>\<open>a >= b\<close>: false when either side is NaN; otherwise the order of the
  sign-magnitude patterns, in which \<open>-0\<close> and \<open>+0\<close> are equal.\<close>

definition order_key :: "f32 \<Rightarrow> int" where
  "order_key x = (if sign_bit x then - mag x else mag x)"

definition fge :: "f32 \<Rightarrow> f32 \<Rightarrow> bool" where
  "fge a b \<longleftrightarrow> \<not> is_nan a \<and> \<not> is_nan b \<and> order_key b \<le> order_key a"

text \<open>The conversion of an \<^verbatim>\<open>int\<close> to \<^verbatim>\<open>float\<close> (rounds once \<open>\<bar>i\<bar>\<close> needs more than 24 bits).\<close>

definition float_of_int :: "int \<Rightarrow> f32" where
  "float_of_int i = f_round (i < 0) \<bar>i\<bar> 1"



section \<open>The random stream\<close>

text \<open>
  \<^verbatim>\<open>curand_normal\<close> and \<^verbatim>\<open>curand_uniform\<close> belong to the cuRAND device library, which is not
  part of this repository.  They are taken as parameters: each maps a generator state
  (\<^verbatim>\<open>curandStateXORWOW\<close>, here any type \<open>'s\<close>) to the value drawn and the advanced state.
\<close>

record 's curand =
  curand_normal :: "'s \<Rightarrow> f32 \<times> 's"
  curand_uniform :: "'s \<Rightarrow> f32 \<times> 's"

type_synonym PDF = "f32 \<Rightarrow> f32"

section \<open>Control flow and memory\<close>

text \<open>
  \<^verbatim>\<open>for (int n = lo; n < hi; n++) body\<close>.  The counter stays below a bound that is itself an
  \<^verbatim>\<open>int\<close>, so it never overflows.
\<close>

function for_loop :: "int \<Rightarrow> int \<Rightarrow> (int \<Rightarrow> 'a \<Rightarrow> 'a) \<Rightarrow> 'a \<Rightarrow> 'a" where
  "for_loop n hi body s = (if n < hi then for_loop (n + 1) hi body (body n s) else s)"
  by pat_completeness auto
termination
  by (relation "measure (\<lambda>(n, hi, body, s). nat (hi - n))") auto

declare for_loop.simps [simp del]

text \<open>
  The index expression \<^verbatim>\<open>totalThreads * n + threadId\<close> of the kernels has type \<^verbatim>\<open>int\<close>: 32 bits,
  two's complement.  The product and the sum wrap around, as the integer instructions of
  the device do, and the result is read as a signed number.
\<close>

definition flat_index :: "int \<Rightarrow> int \<Rightarrow> int \<Rightarrow> int" where
  "flat_index totalThreads n threadId =
     sint (word_of_int totalThreads * word_of_int n + word_of_int threadId :: 32 word)"

text \<open>Device memory behind a pointer is a store from the flat index to the value held there;
  the arrays \<^verbatim>\<open>prevSample\<close> and \<^verbatim>\<open>randState\<close> of a launch live in device memory.\<close>

record 's device =
  d_prevSample :: "int \<Rightarrow> f32"
  d_randState :: "int \<Rightarrow> 's"

text \<open>The working copy of one thread: \<^verbatim>\<open>float localPrevSample[nNucleons]\<close>,
  \<^verbatim>\<open>float localInvPrevPDF[nNucleons]\<close> and \<^verbatim>\<open>curandStateXORWOW localRandState\<close>.\<close>

record 's lane =
  localPrevSample :: "int \<Rightarrow> f32"
  localInvPrevPDF :: "int \<Rightarrow> f32"
  localRandState :: 's


definition launch :: "(int \<Rightarrow> 'd \<Rightarrow> 'd) \<Rightarrow> int list \<Rightarrow> 'd \<Rightarrow> 'd" where
  "launch thread_body threads d = fold thread_body threads d"

section \<open>The kernels\<close>

subsection \<open>\<^verbatim>\<open>InitSampleArray\<close>\<close>

text \<open>The parameter \<^verbatim>\<open>initSample\<close> is declared \<^verbatim>\<open>int\<close>; the assignment to a \<^verbatim>\<open>float\<close> slot
  converts it.\<close>

definition InitSampleArray :: "int \<Rightarrow> int \<Rightarrow> int \<Rightarrow> int \<Rightarrow> (int \<Rightarrow> f32) \<Rightarrow> (int \<Rightarrow> f32)" where
  "InitSampleArray initSample nNucleons totalThreads threadId prevSample =
     for_loop 0 nNucleons
       (\<lambda>n p. p(flat_index totalThreads n threadId := float_of_int initSample)) prevSample"

subsection \<open>\<^verbatim>\<open>MetropolisHastingsStep\<close>\<close>

text \<open>The three pointer arguments are an element of each local array and the local stream
  state; the function returns their new contents.\<close>

definition MetropolisHastingsStep ::
  "'s curand \<Rightarrow> PDF \<Rightarrow> f32 \<Rightarrow> f32 \<Rightarrow> f32 \<Rightarrow> 's \<Rightarrow> f32 \<times> f32 \<times> 's" where
  "MetropolisHastingsStep rng pdf prevSample invPrevPDF stepSize randState =
     (let (z, randState1) = curand_normal rng randState;
          nextSample = fadd prevSample (fmul stepSize z);
          nextPDF = pdf nextSample;
          (u, randState2) = curand_uniform rng randState1
      in if fge (fmul nextPDF invPrevPDF) u
         then (nextSample, fdiv (float_of_int 1) nextPDF, randState2)
         else (prevSample, invPrevPDF, randState2))"

text \<open>The call \<^verbatim>\<open>MetropolisHastingsStep<pdf>(&(localPrevSample[n]), &(localInvPrevPDF[n]),
  stepsize, &localRandState)\<close>, as written at each of its three call sites.\<close>

definition step_dimension :: "'s curand \<Rightarrow> PDF \<Rightarrow> int \<Rightarrow> f32 \<Rightarrow> 's lane \<Rightarrow> 's lane" where
  "step_dimension rng pdf n stepsize L =
     (let (x, i, r) = MetropolisHastingsStep rng pdf (localPrevSample L n) (localInvPrevPDF L n)
                        stepsize (localRandState L)
      in L\<lparr>localPrevSample := (localPrevSample L)(n := x),
            localInvPrevPDF := (localInvPrevPDF L)(n := i),
            localRandState := r\<rparr>)"

subsection \<open>\<^verbatim>\<open>WarmupCopy\<close> and \<^verbatim>\<open>WarmupGibbs\<close>\<close>

text \<open>
  Each of the two templates has two overloads with the same function parameters: the first
  takes the template arguments \<^verbatim>\<open><..., n, pdf>\<close>, the second \<^verbatim>\<open><..., n, pdf, pdfs...>\<close> with a
  pack \<^verbatim>\<open>pdfs\<close> that may be empty.  All template arguments are given explicitly at every
  call and none is deduced from a function argument, so nothing orders the two overloads.
  A call with several densities fits the second overload only.  A call with one density
  fits both and is ambiguous; a call with none fits neither.  Instantiating a template for
  a list of densities therefore yields a function or a build error.

  The statements that both overloads of \<^verbatim>\<open>WarmupCopy\<close> start with (the first overload has no
  other) are \<open>copy_dimension\<close>; the statement that both overloads of \<^verbatim>\<open>WarmupGibbs\<close> start
  with is \<open>step_dimension\<close>.  The second overload goes on with the call for \<open>n + 1\<close> and
  the rest of the pack.
\<close>

datatype build_error =
  IncorrectNumberOfPdfs | NoMatchingFunction | AmbiguousOverload | NegativeArraySize

definition copy_dimension :: "int \<Rightarrow> int \<Rightarrow> PDF \<Rightarrow> int \<Rightarrow> (int \<Rightarrow> f32) \<Rightarrow> 's lane \<Rightarrow> 's lane" where
  "copy_dimension totalThreads n pdf threadId prevSample L =
     (let L' = L\<lparr>localPrevSample :=
                  (localPrevSample L)(n := prevSample (flat_index totalThreads n threadId))\<rparr>
      in L'\<lparr>localInvPrevPDF := (localInvPrevPDF L')(n := fdiv f_one (pdf (localPrevSample L' n)))\<rparr>)"

fun WarmupCopy ::
  "int \<Rightarrow> int \<Rightarrow> PDF list \<Rightarrow> build_error + (int \<Rightarrow> (int \<Rightarrow> f32) \<Rightarrow> 's lane \<Rightarrow> 's lane)" where
  "WarmupCopy totalThreads n [] = Inl NoMatchingFunction"
| "WarmupCopy totalThreads n [pdf] = Inl AmbiguousOverload"
| "WarmupCopy totalThreads n (pdf # pdf' # pdfs) =
     (case WarmupCopy totalThreads (n + 1) (pdf' # pdfs) of
        Inl e \<Rightarrow> Inl e
      | Inr rest \<Rightarrow>
          Inr (\<lambda>threadId prevSample L.
                 rest threadId prevSample (copy_dimension totalThreads n pdf threadId prevSample L)))"

fun WarmupGibbs ::
  "'s curand \<Rightarrow> int \<Rightarrow> PDF list \<Rightarrow> build_error + (f32 \<Rightarrow> 's lane \<Rightarrow> 's lane)" where
  "WarmupGibbs rng n [] = Inl NoMatchingFunction"
| "WarmupGibbs rng n [pdf] = Inl AmbiguousOverload"
| "WarmupGibbs rng n (pdf # pdf' # pdfs) =
     (case WarmupGibbs rng (n + 1) (pdf' # pdfs) of
        Inl e \<Rightarrow> Inl e
      | Inr rest \<Rightarrow> Inr (\<lambda>stepsize L. rest stepsize (step_dimension rng pdf n stepsize L)))"

subsection \<open>\<^verbatim>\<open>WarmupMetropolis\<close>\<close>

text \<open>The local arrays are declared without initialiser: their first content \<open>stack\<close> is
  whatever the thread's registers held.  Both branches end with the same write-back.\<close>

definition declare_locals :: "(int \<Rightarrow> f32) \<times> (int \<Rightarrow> f32) \<Rightarrow> 's \<Rightarrow> 's lane" where
  "declare_locals stack r =
     \<lparr>localPrevSample = fst stack, localInvPrevPDF = snd stack, localRandState = r\<rparr>"

definition store_back :: "int \<Rightarrow> int \<Rightarrow> int \<Rightarrow> 's lane \<Rightarrow> 's device \<Rightarrow> 's device" where
  "store_back nNucleons totalThreads threadId L d =
     for_loop 0 nNucleons
       (\<lambda>n d. d\<lparr>d_prevSample :=
                   (d_prevSample d)(flat_index totalThreads n threadId := localPrevSample L n)\<rparr>)
       (d\<lparr>d_randState := (d_randState d)(threadId := localRandState L)\<rparr>)"

text \<open>The branch \<^verbatim>\<open>sizeof...(pdfs) == 1\<close>: one density for every dimension.\<close>

definition load_single :: "int \<Rightarrow> int \<Rightarrow> PDF \<Rightarrow> int \<Rightarrow> (int \<Rightarrow> f32) \<Rightarrow> 's lane \<Rightarrow> 's lane" where
  "load_single nNucleons totalThreads pdf threadId prevSample L =
     for_loop 0 nNucleons
       (\<lambda>n L. let L' = L\<lparr>localPrevSample :=
                            (localPrevSample L)(n := prevSample (flat_index totalThreads n threadId))\<rparr>
               in L'\<lparr>localInvPrevPDF :=
                       (localInvPrevPDF L')(n := fdiv (float_of_int 1) (pdf (localPrevSample L' n)))\<rparr>)
       L"

definition sweep_single :: "'s curand \<Rightarrow> int \<Rightarrow> PDF \<Rightarrow> f32 \<Rightarrow> 's lane \<Rightarrow> 's lane" where
  "sweep_single rng nNucleons pdf stepsize L =
     for_loop 0 nNucleons (\<lambda>n. step_dimension rng pdf n stepsize) L"

definition WarmupMetropolis_single ::
  "'s curand \<Rightarrow> int \<Rightarrow> int \<Rightarrow> PDF \<Rightarrow> (int \<Rightarrow> f32) \<times> (int \<Rightarrow> f32) \<Rightarrow>
   f32 \<Rightarrow> int \<Rightarrow> int \<Rightarrow> 's device \<Rightarrow> 's device" where
  "WarmupMetropolis_single rng nNucleons totalThreads pdf stack stepsize iterations threadId d =
     (let L0 = declare_locals stack (d_randState d threadId);
          L1 = load_single nNucleons totalThreads pdf threadId (d_prevSample d) L0;
          L2 = for_loop 0 iterations (\<lambda>i. sweep_single rng nNucleons pdf stepsize) L1
      in store_back nNucleons totalThreads threadId L2 d)"

text \<open>The \<^verbatim>\<open>else\<close> branch, after its \<^verbatim>\<open>static_assert\<close>, around the functions \<open>copy\<close> and
  \<open>gibbs\<close> that its calls \<^verbatim>\<open>WarmupCopy<totalThreads, 0, pdfs...>\<close> and \<^verbatim>\<open>WarmupGibbs<0, pdfs...>\<close>
  resolve to.\<close>

definition WarmupMetropolis_multiple ::
  "int \<Rightarrow> int \<Rightarrow> (int \<Rightarrow> (int \<Rightarrow> f32) \<Rightarrow> 's lane \<Rightarrow> 's lane) \<Rightarrow> (f32 \<Rightarrow> 's lane \<Rightarrow> 's lane) \<Rightarrow>
   (int \<Rightarrow> f32) \<times> (int \<Rightarrow> f32) \<Rightarrow> f32 \<Rightarrow> int \<Rightarrow> int \<Rightarrow> 's device \<Rightarrow> 's device" where
  "WarmupMetropolis_multiple nNucleons totalThreads copy gibbs stack stepsize iterations threadId d =
     (let L0 = declare_locals stack (d_randState d threadId);
          L1 = copy threadId (d_prevSample d) L0;
          L2 = for_loop 0 iterations (\<lambda>i. gibbs stepsize) L1
      in store_back nNucleons totalThreads threadId L2 d)"

text \<open>
  Instantiating the template either fails to build or yields the kernel body of one thread.
  A pack of one density selects the first branch.  Any other pack must pass
  \<^verbatim>\<open>static_assert(nNucleons == sizeof...(pdfs), "Incorrect number of pdf's")\<close>, and then the two
  calls of the \<^verbatim>\<open>else\<close> branch must resolve.  An array of negative size does not build
  either.
\<close>

definition WarmupMetropolis ::
  "'s curand \<Rightarrow> int \<Rightarrow> int \<Rightarrow> PDF list \<Rightarrow>
   build_error + ((int \<Rightarrow> f32) \<times> (int \<Rightarrow> f32) \<Rightarrow> f32 \<Rightarrow> int \<Rightarrow> int \<Rightarrow> 's device \<Rightarrow> 's device)" where
  "WarmupMetropolis rng nNucleons totalThreads pdfs =
     (if length pdfs = 1
      then if nNucleons < 0 then Inl NegativeArraySize
           else Inr (WarmupMetropolis_single rng nNucleons totalThreads (hd pdfs))
      else if nNucleons \<noteq> int (length pdfs) then Inl IncorrectNumberOfPdfs
      else case WarmupCopy totalThreads 0 pdfs of
             Inl e \<Rightarrow> Inl e
           | Inr copy \<Rightarrow>
               (case WarmupGibbs rng 0 pdfs of
                  Inl e \<Rightarrow> Inl e
                | Inr gibbs \<Rightarrow> Inr (WarmupMetropolis_multiple nNucleons totalThreads copy gibbs)))"

section \<open>Vocabulary of the properties\<close>

text \<open>What a sequence of draws does to a stream state.\<close>

datatype draw = Normal | Uniform

definition advance :: "'s curand \<Rightarrow> draw \<Rightarrow> 's \<Rightarrow> 's" where
  "advance rng k s = (case k of Normal \<Rightarrow> snd (curand_normal rng s) | Uniform \<Rightarrow> snd (curand_uniform rng s))"

definition consume :: "'s curand \<Rightarrow> draw list \<Rightarrow> 's \<Rightarrow> 's" where
  "consume rng ks s = fold (advance rng) ks s"

text \<open>The slots of the sample array that thread \<open>t\<close> works on: the flat indices it computes
  for the dimensions \<open>0 .. nNucleons - 1\<close>.\<close>

definition lane_slots :: "int \<Rightarrow> int \<Rightarrow> int \<Rightarrow> int set" where
  "lane_slots nNucleons totalThreads t = (\<lambda>n. flat_index totalThreads n t) ` {0..<nNucleons}"

text \<open>Two device states that agree on everything thread \<open>t\<close> owns.\<close>

definition same_lane :: "int \<Rightarrow> int \<Rightarrow> int \<Rightarrow> 's device \<Rightarrow> 's device \<Rightarrow> bool" where
  "same_lane nNucleons totalThreads t d d' \<longleftrightarrow>
     d_randState d t = d_randState d' t \<and>
     (\<forall>i\<in>lane_slots nNucleons totalThreads t. d_prevSample d i = d_prevSample d' i)"

text \<open>The cache of inverse densities agrees with the samples, for the density bound to each
  dimension.\<close>

definition cache_consistent :: "(int \<Rightarrow> PDF) \<Rightarrow> int \<Rightarrow> 's lane \<Rightarrow> bool" where
  "cache_consistent binding nNucleons L \<longleftrightarrow>
     (\<forall>n\<in>{0..<nNucleons}. localInvPrevPDF L n = fdiv f_one (binding n (localPrevSample L n)))"

text \<open>Two working copies that agree on the stream and on the dimensions \<open>0 .. nNucleons - 1\<close>.\<close>

definition same_locals :: "int \<Rightarrow> 's lane \<Rightarrow> 's lane \<Rightarrow> bool" where
  "same_locals nNucleons L L' \<longleftrightarrow>
     localRandState L = localRandState L' \<and>
     (\<forall>n\<in>{0..<nNucleons}. localPrevSample L n = localPrevSample L' n \<and>
                            localInvPrevPDF L n = localInvPrevPDF L' n)"

text \<open>The comparison \<^verbatim>\<open>a < b\<close> of two floats, to state ranges.\<close>

definition fless :: "f32 \<Rightarrow> f32 \<Rightarrow> bool" where
  "fless a b \<longleftrightarrow> \<not> is_nan a \<and> \<not> is_nan b \<and> order_key a < order_key b"

subsection \<open>Rounding, in the reals\<close>

text \<open>The nearest integer to a real number, ties to the even one; the exponent and the
  integer mantissa that rounding \<open>P / Q\<close> arrives at; and the real number that a magnitude
  code stands for.\<close>

definition round_real :: "real \<Rightarrow> int" where
  "round_real s = (if 1 / 2 < s - of_int \<lfloor>s\<rfloor> \<or> (s - of_int \<lfloor>s\<rfloor> = 1 / 2 \<and> odd \<lfloor>s\<rfloor>)
                   then \<lfloor>s\<rfloor> + 1 else \<lfloor>s\<rfloor>)"

definition round_exponent :: "int \<Rightarrow> int \<Rightarrow> int" where
  "round_exponent P Q = max (- 126) (floor_log2 P Q)"

definition round_mantissa :: "int \<Rightarrow> int \<Rightarrow> int" where
  "round_mantissa P Q = round_real (of_int P / of_int Q * 2 powi (23 - round_exponent P Q))"

definition valmag :: "int \<Rightarrow> real" where
  "valmag n = (if n div 2 ^ 23 = 0 then of_int (n mod 2 ^ 23) * 2 powi (- 149)
               else of_int (2 ^ 23 + n mod 2 ^ 23) * 2 powi (n div 2 ^ 23 - 150))"

section \<open>Streams, densities and floats for concrete runs\<close>

text \<open>Some floats by name: 0.5; the largest float below 1.0, \<open>1 - 2\<^sup>-\<^sup>2\<^sup>4\<close>; \<open>2\<^sup>1\<^sup>2\<^sup>6\<close>, the
  largest float whose reciprocal is a normal float; and \<open>133 * 2\<^sup>1\<^sup>2\<^sup>0\<close>, about \<open>1.77e38\<close>.\<close>

definition f_half :: f32 where
  "f_half = F32 False (word_of_int (126 * 2 ^ 23))"

definition f_below_one :: f32 where
  "f_below_one = F32 False (word_of_int (127 * 2 ^ 23 - 1))"

definition f_two_126 :: f32 where
  "f_two_126 = F32 False (word_of_int (253 * 2 ^ 23))"

definition f_huge :: f32 where
  "f_huge = F32 False (word_of_int (254 * 2 ^ 23 + 5 * 2 ^ 16))"

text \<open>A stream whose state counts the draws made so far: draw number \<open>k\<close>, normal or
  uniform, returns \<open>f k\<close>.  \<open>two_draws z u\<close> returns \<open>z\<close> first and \<open>u\<close> ever after.\<close>

definition tape :: "(nat \<Rightarrow> f32) \<Rightarrow> nat curand" where
  "tape f = \<lparr>curand_normal = (\<lambda>s. (f s, Suc s)), curand_uniform = (\<lambda>s. (f s, Suc s))\<rparr>"

definition two_draws :: "f32 \<Rightarrow> f32 \<Rightarrow> nat curand" where
  "two_draws z u = tape (\<lambda>k. if k = 0 then z else u)"

text \<open>The density that is \<open>p\<close> everywhere, and a density that is 0 at the sample 1.0, 1 at
  the sample 2.0 and 0.5 elsewhere, with a stream for two steps on it: the normal draws
  are 1.0, the uniform draws are 0.0 and then \<open>1 - 2\<^sup>-\<^sup>2\<^sup>4\<close>.\<close>

definition const_pdf :: "f32 \<Rightarrow> PDF" where
  "const_pdf p x = p"

definition bump_pdf :: PDF where
  "bump_pdf x = (if x = f_one then f_zero False else if x = float_of_int 2 then f_one else f_half)"

definition bump_stream :: "nat curand" where
  "bump_stream = tape (\<lambda>k. if k = 3 then f_below_one else if k = 1 then f_zero False else f_one)"

text \<open>A device holding the sample 1.0 in every slot and a fresh \<open>tape\<close> state for every
  thread; local arrays, and a sample array, that start out as NaN.\<close>

definition unit_device :: "nat device" where
  "unit_device = \<lparr>d_prevSample = (\<lambda>i. f_one), d_randState = (\<lambda>t. 0)\<rparr>"

definition nan_stack :: "(int \<Rightarrow> f32) \<times> (int \<Rightarrow> f32)" where
  "nan_stack = ((\<lambda>n. f_nan), (\<lambda>n. f_nan))"

definition nan_memory :: "int \<Rightarrow> f32" where
  "nan_memory i = f_nan"

section \<open>Loops\<close>

lemma for_loop_upto: "for_loop n hi body s = fold body [n..hi - 1] s"
proof (induction n hi body s rule: for_loop.induct)
  case (1 n hi body s)
  show ?case
  proof (cases "n < hi")
    case True
    then have "[n..hi - 1] = n # [n + 1..hi - 1]" by (simp add: upto_rec1)
    with True 1 show ?thesis by (simp add: for_loop.simps [of n])
  next
    case False
    then show ?thesis by (simp add: for_loop.simps [of n])
  qed
qed


lemma upto_as_upt: "[0..N - 1] = map int [0..<nat N]"
proof (cases "0 \<le> N")
  case True
  then obtain k where N: "N = int k" using nonneg_int_cases by blast
  have "[0..int k - 1] = map int [0..<k]"
  proof (induction k)
    case 0
    show ?case by simp
  next
    case (Suc k)
    have "[0..int (Suc k) - 1] = [0..int k - 1] @ [int k]"
      using upto_rec2 [of 0 "int k"] by simp
    with Suc show ?case by simp
  qed
  with N show ?thesis by simp
next
  case False
  then show ?thesis by simp
qed

lemma fold_keeps:
  assumes "\<And>x s. p (f x s) = p s"
  shows "p (fold f xs s) = p s"
  using assms by (induction xs arbitrary: s) simp_all

lemma fold_const_funpow: "fold (\<lambda>i. f) xs s = (f ^^ length xs) s"
  by (induction xs arbitrary: s) (simp_all add: funpow_swap1)

lemma for_loop_funpow: "for_loop 0 iters (\<lambda>i. f) s = (f ^^ nat iters) s"
  by (simp add: for_loop_upto upto_as_upt fold_const_funpow)

lemma for_loop_upt: "for_loop 0 N body s = fold (\<lambda>n. body (int n)) [0..<nat N] s"
  by (simp add: for_loop_upto upto_as_upt fold_map comp_def)

lemma funpow_invariant: "P s \<Longrightarrow> (\<And>s. P s \<Longrightarrow> P (f s)) \<Longrightarrow> P ((f ^^ j) s)"
  by (induction j) simp_all

lemma funpow_relation: "R s s' \<Longrightarrow> (\<And>s s'. R s s' \<Longrightarrow> R (f s) (f s')) \<Longrightarrow> R ((f ^^ j) s) ((f ^^ j) s')"
  by (induction j) simp_all

section \<open>The Metropolis-Hastings step\<close>

lemma float_of_int_1: "float_of_int 1 = f_one"
  by code_simp

lemma step_unfold:
  "MetropolisHastingsStep rng pdf x c h s =
    (let z = fst (curand_normal rng s); s1 = snd (curand_normal rng s);
         proposal = fadd x (fmul h z);
         proposalDensity = pdf proposal;
         ratio = fmul proposalDensity c;
         u = fst (curand_uniform rng s1); s2 = snd (curand_uniform rng s1)
     in if fge ratio u then (proposal, fdiv f_one proposalDensity, s2) else (x, c, s2))"
  by (simp add: MetropolisHastingsStep_def float_of_int_1 Let_def split: prod.split)

text \<open>
  Claim C1.  One call of \<^verbatim>\<open>MetropolisHastingsStep\<close> draws a normal value \<open>z\<close> from the stream,
  forms the proposal \<open>x + h * z\<close>, evaluates the density there, multiplies it by the cached
  inverse density \<open>c\<close>, then draws a uniform value \<open>u\<close>.  Exactly when the ratio is \<open>\<ge> u\<close> the
  sample becomes the proposal and the cache becomes \<open>1 / proposalDensity\<close>; otherwise both
  keep their values.  The stream has advanced past both draws in either case.
\<close>

theorem MetropolisHastingsStep_contract:
  "MetropolisHastingsStep rng pdf x c h s =
    (let z = fst (curand_normal rng s); s1 = snd (curand_normal rng s);
         proposal = fadd x (fmul h z);
         proposalDensity = pdf proposal;
         ratio = fmul proposalDensity c;
         u = fst (curand_uniform rng s1); s2 = snd (curand_uniform rng s1)
     in if fge ratio u then (proposal, fdiv f_one proposalDensity, s2) else (x, c, s2))"
  by (rule step_unfold)

theorem MetropolisHastingsStep_contract_witness:
  "MetropolisHastingsStep (tape (\<lambda>k. if k = 0 then f_zero False else f_one)) (\<lambda>x. x)
     f_one f_one f_one 0 = (f_one, f_one, 2) \<and>
   MetropolisHastingsStep (tape (\<lambda>k. if k = 0 then f_one else float_of_int 3)) (\<lambda>x. x)
     f_one f_one f_one 0 = (f_one, f_one, 2)"
  unfolding MetropolisHastingsStep_contract by code_simp

section \<open>Instantiating the templates\<close>

text \<open>No list of densities resolves a call of \<^verbatim>\<open>WarmupCopy\<close> or of \<^verbatim>\<open>WarmupGibbs\<close>: the
  recursion of the second overload always arrives at a call with one density, which is
  ambiguous.  So the only kernels that build are those of the first branch.\<close>

lemma WarmupCopy_unresolved:
  "WarmupCopy T n pdfs = Inl (if pdfs = [] then NoMatchingFunction else AmbiguousOverload)"
  by (induction T n pdfs rule: WarmupCopy.induct) simp_all

lemma WarmupGibbs_unresolved:
  "WarmupGibbs rng n pdfs = Inl (if pdfs = [] then NoMatchingFunction else AmbiguousOverload)"
  by (induction rng n pdfs rule: WarmupGibbs.induct) simp_all

lemma WarmupMetropolis_else:
  "length pdfs \<noteq> 1 \<Longrightarrow>
     WarmupMetropolis rng N T pdfs =
       Inl (if N \<noteq> int (length pdfs) then IncorrectNumberOfPdfs
            else if pdfs = [] then NoMatchingFunction else AmbiguousOverload)"
  by (simp add: WarmupMetropolis_def WarmupCopy_unresolved)

lemma WarmupMetropolis_one:
  "0 \<le> N \<Longrightarrow> WarmupMetropolis rng N T [pdf] = Inr (WarmupMetropolis_single rng N T pdf)"
  by (simp add: WarmupMetropolis_def)

lemma WarmupMetropolis_cases:
  assumes "WarmupMetropolis rng N T pdfs = Inr k"
  obtains pdf where "pdfs = [pdf]" "0 \<le> N" "k = WarmupMetropolis_single rng N T pdf"
proof (cases "length pdfs = 1")
  case True
  then obtain pdf where "pdfs = [pdf]" by (cases pdfs) auto
  with assms that show ?thesis by (auto simp: WarmupMetropolis_def split: if_splits)
next
  case False
  from WarmupMetropolis_else [OF this, of rng N T] assms show ?thesis by simp
qed

section \<open>Use of the random stream\<close>

lemma consume_append: "consume rng (ks @ ks') s = consume rng ks' (consume rng ks s)"
  by (simp add: consume_def)

lemma consume_replicate:
  "consume rng (concat (replicate m ks)) s = (consume rng ks ^^ m) s"
proof (induction m arbitrary: s)
  case 0
  show ?case by (simp add: consume_def)
next
  case (Suc m)
  show ?case by (simp add: consume_append Suc funpow_swap1)
qed

lemma step_dimension_stream:
  "localRandState (step_dimension rng pdf n h L) = consume rng [Normal, Uniform] (localRandState L)"
  by (simp add: step_dimension_def MetropolisHastingsStep_def consume_def advance_def Let_def
           split: prod.split)

lemma fold_stream:
  assumes "\<And>x L. localRandState (f x L) = g (localRandState L)"
  shows "localRandState (fold f xs L) = (g ^^ length xs) (localRandState L)"
  using assms by (induction xs arbitrary: L) (simp_all add: funpow_swap1)

lemma sweep_single_stream:
  "localRandState (sweep_single rng N pdf h L) = (consume rng [Normal, Uniform] ^^ nat N) (localRandState L)"
  unfolding sweep_single_def for_loop_upto upto_as_upt
  by (simp add: fold_stream [where g = "consume rng [Normal, Uniform]"] step_dimension_stream)

lemma iterations_stream:
  assumes "\<And>L. localRandState (sweep L) = (g ^^ m) (localRandState L)"
  shows "localRandState (for_loop 0 iters (\<lambda>i. sweep) L) = (g ^^ (m * nat iters)) (localRandState L)"
proof -
  have "localRandState (fold (\<lambda>i. sweep) xs L) = ((g ^^ m) ^^ length xs) (localRandState L)" for xs :: "int list"
    by (rule fold_stream) (rule assms)
  then show ?thesis
    by (simp add: for_loop_upto upto_as_upt funpow_mult)
qed

lemma copy_dimension_stream [simp]:
  "localRandState (copy_dimension T n pdf tid mem L) = localRandState L"
  by (simp add: copy_dimension_def Let_def)

lemma load_single_stream [simp]:
  "localRandState (load_single N T pdf tid mem L) = localRandState L"
  unfolding load_single_def for_loop_upto
  by (rule fold_keeps) (simp add: Let_def)

lemma store_back_stream [simp]:
  "d_randState (store_back N T tid L d) = (d_randState d)(tid := localRandState L)"
  unfolding store_back_def for_loop_upto
  by (subst fold_keeps [where p = d_randState]) simp_all

lemma WarmupMetropolis_single_stream:
  "d_randState (WarmupMetropolis_single rng N T pdf stack h iters tid d) tid =
     (consume rng [Normal, Uniform] ^^ (nat N * nat iters)) (d_randState d tid)"
  by (simp add: WarmupMetropolis_single_def Let_def declare_locals_def
        iterations_stream [where g = "consume rng [Normal, Uniform]" and m = "nat N"] sweep_single_stream)

text \<open>
  Claim C10.  A call of \<^verbatim>\<open>MetropolisHastingsStep\<close> leaves the stream where one normal draw
  followed by one uniform draw leave it, whether it accepts or rejects.  A warm-up run of
  one thread therefore leaves that thread's stream where \<open>nDimensions * iterations\<close> such
  pairs leave it, that is \<open>2 * nDimensions * iterations\<close> draws (none when
  \<open>iterations \<le> 0\<close>), whatever the samples, the densities and the proposals accepted.
\<close>

theorem stream_consumption:
  "snd (snd (MetropolisHastingsStep rng pdf x c h s)) = consume rng [Normal, Uniform] s \<and>
   (WarmupMetropolis rng N T pdfs = Inr k \<longrightarrow>
      d_randState (k stack h iters tid d) tid =
        consume rng (concat (replicate (nat (N * iters)) [Normal, Uniform])) (d_randState d tid) \<and>
      length (concat (replicate (nat (N * iters)) [Normal, Uniform])) = nat (2 * N * iters))"
proof (intro conjI impI)
  show "snd (snd (MetropolisHastingsStep rng pdf x c h s)) = consume rng [Normal, Uniform] s"
    by (simp add: MetropolisHastingsStep_def consume_def advance_def Let_def split: prod.split)
next
  assume "WarmupMetropolis rng N T pdfs = Inr k"
  then obtain pdf where N: "0 \<le> N" and k: "k = WarmupMetropolis_single rng N T pdf"
    by (rule WarmupMetropolis_cases)
  have m: "nat (N * iters) = nat N * nat iters" using N by (simp add: nat_mult_distrib)
  show "d_randState (k stack h iters tid d) tid =
        consume rng (concat (replicate (nat (N * iters)) [Normal, Uniform])) (d_randState d tid)"
    by (simp add: k WarmupMetropolis_single_stream consume_replicate m)
  show "length (concat (replicate (nat (N * iters)) [Normal, Uniform])) = nat (2 * N * iters)"
  proof -
    have "length (concat (replicate j [Normal, Uniform])) = 2 * j" for j
      by (induction j) simp_all
    then show ?thesis by (simp add: nat_mult_distrib mult.assoc)
  qed
qed

theorem stream_consumption_witness:
  "WarmupMetropolis (tape (\<lambda>k. f_one)) 2 1 [\<lambda>x. x] =
     Inr (WarmupMetropolis_single (tape (\<lambda>k. f_one)) 2 1 (\<lambda>x. x)) \<and>
   d_randState (WarmupMetropolis_single (tape (\<lambda>k. f_one)) 2 1 (\<lambda>x. x)
                  nan_stack f_one 3 0 unit_device) 0 = 12"
proof -
  have b: "WarmupMetropolis (tape (\<lambda>k. f_one)) 2 1 [\<lambda>x. x] =
     Inr (WarmupMetropolis_single (tape (\<lambda>k. f_one)) 2 1 (\<lambda>x. x))"
    by (simp add: WarmupMetropolis_def)
  have c: "consume (tape (\<lambda>k. f_one)) (concat (replicate (nat (2 * 3)) [Normal, Uniform]))
             (d_randState unit_device 0) = 12"
    by code_simp
  from stream_consumption [where rng = "tape (\<lambda>k. f_one)" and N = 2 and T = 1 and pdfs = "[\<lambda>x. x]"
      and k = "WarmupMetropolis_single (tape (\<lambda>k. f_one)) 2 1 (\<lambda>x. x)" and stack = nan_stack
      and h = f_one and iters = 3 and tid = 0 and d = unit_device] b c
  show ?thesis by simp
qed

section \<open>The order of the updates\<close>

lemma single_as_sweeps:
  "WarmupMetropolis_single rng N T pdf stack h iters tid d =
     store_back N T tid
       ((fold (\<lambda>n. step_dimension rng pdf (int n) h) [0..<nat N] ^^ nat iters)
          (load_single N T pdf tid (d_prevSample d) (declare_locals stack (d_randState d tid)))) d"
proof -
  have "sweep_single rng N pdf h = fold (\<lambda>n. step_dimension rng pdf (int n) h) [0..<nat N]"
    by (rule ext) (simp add: sweep_single_def for_loop_upt)
  then show ?thesis
    by (simp add: WarmupMetropolis_single_def Let_def for_loop_funpow)
qed

lemma fold_steps_stream:
  "localRandState (fold (\<lambda>n. step_dimension rng (binding n) (int n) h) [0..<j] L) =
     consume rng (concat (replicate j [Normal, Uniform])) (localRandState L)"
  by (simp add: fold_stream [where g = "consume rng [Normal, Uniform]"] step_dimension_stream
        consume_replicate)

lemma step_dimension_call:
  "step_dimension rng pdf n h L =
     L\<lparr>localPrevSample := (localPrevSample L)
          (n := fst (MetropolisHastingsStep rng pdf (localPrevSample L n) (localInvPrevPDF L n) h
                       (localRandState L))),
       localInvPrevPDF := (localInvPrevPDF L)
          (n := fst (snd (MetropolisHastingsStep rng pdf (localPrevSample L n) (localInvPrevPDF L n) h
                            (localRandState L)))),
       localRandState :=
          snd (snd (MetropolisHastingsStep rng pdf (localPrevSample L n) (localInvPrevPDF L n) h
                      (localRandState L)))\<rparr>"
  by (simp add: step_dimension_def split: prod.split)

text \<open>
  Claim C5.  In the branch for one density, a thread of \<^verbatim>\<open>WarmupMetropolis\<close> stores back the
  state reached by \<open>iterations\<close> sweeps from the loaded state.  One sweep is the steps of
  dimension 0, 1, 2, ... up to the last, one step each, in this order, each working on the
  lane state (and so on the stream) its predecessor left; the step of dimension \<open>n\<close> is one
  call of \<^verbatim>\<open>MetropolisHastingsStep\<close> with the density, on entry \<open>n\<close> of the two local arrays,
  with the step size and the stream of the lane, whose three results replace those entries
  and that stream.  The step of dimension \<open>j\<close> finds the stream after the \<open>2 * j\<close> draws of
  the dimensions before it.

  The branch for a pack of densities does not do what the claim says of it, because it
  does not build: \<^verbatim>\<open>WarmupGibbs<n, pdf, pdfs...>\<close> steps dimension \<open>n\<close> with the head of the pack
  and calls \<^verbatim>\<open>WarmupGibbs<n + 1, pdfs...>\<close>, and that call is ambiguous between the two
  overloads once one density is left.  Every pack of two densities or more ends there.
\<close>

theorem sweep_order:
  "WarmupMetropolis_single rng N T pdf stack h iters tid d =
     store_back N T tid
       ((fold (\<lambda>n. step_dimension rng pdf (int n) h) [0..<nat N] ^^ nat iters)
          (load_single N T pdf tid (d_prevSample d) (declare_locals stack (d_randState d tid)))) d \<and>
   step_dimension rng pdf n h L =
     L\<lparr>localPrevSample := (localPrevSample L)
          (n := fst (MetropolisHastingsStep rng pdf (localPrevSample L n) (localInvPrevPDF L n) h
                       (localRandState L))),
       localInvPrevPDF := (localInvPrevPDF L)
          (n := fst (snd (MetropolisHastingsStep rng pdf (localPrevSample L n) (localInvPrevPDF L n) h
                            (localRandState L)))),
       localRandState :=
          snd (snd (MetropolisHastingsStep rng pdf (localPrevSample L n) (localInvPrevPDF L n) h
                      (localRandState L)))\<rparr> \<and>
   localRandState (fold (\<lambda>n. step_dimension rng (binding n) (int n) h) [0..<j] L) =
     consume rng (concat (replicate j [Normal, Uniform])) (localRandState L) \<and>
   (0 \<le> N \<longrightarrow> WarmupMetropolis rng N T [pdf] = Inr (WarmupMetropolis_single rng N T pdf)) \<and>
   WarmupGibbs rng n (pdf # pdf' # pdfs) = Inl AmbiguousOverload \<and>
   WarmupMetropolis rng (int (length (pdf # pdf' # pdfs))) T (pdf # pdf' # pdfs) =
     Inl AmbiguousOverload"
proof (intro conjI impI)
  show "WarmupGibbs rng n (pdf # pdf' # pdfs) = Inl AmbiguousOverload"
    by (simp only: WarmupGibbs_unresolved) simp
  show "WarmupMetropolis rng (int (length (pdf # pdf' # pdfs))) T (pdf # pdf' # pdfs) =
          Inl AmbiguousOverload"
    by (subst WarmupMetropolis_else) simp_all
qed (simp_all only: single_as_sweeps step_dimension_call fold_steps_stream WarmupMetropolis_one)

theorem sweep_order_witness:
  "WarmupMetropolis (tape (\<lambda>k. f_one)) 2 1 [\<lambda>x. x] =
     Inr (WarmupMetropolis_single (tape (\<lambda>k. f_one)) 2 1 (\<lambda>x. x)) \<and>
   WarmupMetropolis_single (tape (\<lambda>k. f_one)) 2 1 (\<lambda>x. x) nan_stack f_one 1 0 unit_device =
     store_back 2 1 0
       (step_dimension (tape (\<lambda>k. f_one)) (\<lambda>x. x) 1 f_one
         (step_dimension (tape (\<lambda>k. f_one)) (\<lambda>x. x) 0 f_one
           (load_single 2 1 (\<lambda>x. x) 0 (d_prevSample unit_device)
              (declare_locals nan_stack (d_randState unit_device 0))))) unit_device \<and>
   WarmupMetropolis (tape (\<lambda>k. f_one)) 2 1 [\<lambda>x. x, \<lambda>x. f_one] = Inl AmbiguousOverload"
  using sweep_order [where rng = "tape (\<lambda>k. f_one)" and N = 2 and T = 1 and pdf = "\<lambda>x. x"
      and stack = nan_stack and h = f_one  and iters = 1 and tid = 0 and d = unit_device
      and pdf' = "\<lambda>x. f_one" and pdfs = "[]"]
  by (simp add: numeral_2_eq_2)

section \<open>The layout of the sample array\<close>

subsection \<open>The index\<close>

lemma flat_index_wrap: "flat_index T n t = (T * n + t + 2 ^ 31) mod 2 ^ 32 - 2 ^ 31"
  by (simp only: flat_index_def wi_hom_mult wi_hom_add int_word_sint) simp

lemma flat_index_range: "- (2 ^ 31) \<le> flat_index T n t" "flat_index T n t < 2 ^ 31"
  unfolding flat_index_wrap by simp_all

lemma flat_index_exact:
  assumes "0 \<le> T * n + t" "T * n + t < 2 ^ 31"
  shows "flat_index T n t = T * n + t"
  unfolding flat_index_wrap using assms by simp

lemma flat_index_lane:
  assumes "0 \<le> n" "n < N" "0 \<le> t" "t < T" "T * N \<le> 2 ^ 31"
  shows "flat_index T n t = T * n + t"
proof (rule flat_index_exact)
  from assms have T: "0 < T" by simp
  with assms show "0 \<le> T * n + t" by simp
  from assms have "T * n + t < T * n + T" by simp
  also have "\<dots> = T * (n + 1)" by (simp add: algebra_simps)
  also from assms T have "\<dots> \<le> T * N" by (intro mult_left_mono) simp_all
  finally show "T * n + t < 2 ^ 31" using assms(5) by simp
qed

lemma lane_slots_exact:
  assumes "0 \<le> t" "t < T" "T * N \<le> 2 ^ 31"
  shows "lane_slots N T t = (\<lambda>n. T * n + t) ` {0..<N}"
  unfolding lane_slots_def
  by (rule image_cong) (use assms in \<open>simp_all add: flat_index_lane [where N = N]\<close>)

lemma lane_slots_disjoint:
  assumes "0 \<le> t" "t < T" "0 \<le> t'" "t' < T" "t \<noteq> t'" "T * N \<le> 2 ^ 31"
  shows "lane_slots N T t \<inter> lane_slots N T t' = {}"
proof -
  have "(T * n + t) mod T = t" "(T * n' + t') mod T = t'" for n n'
    using assms by simp_all
  then have "T * n + t \<noteq> T * n' + t'" for n n'
    using assms(5) by metis
  then show ?thesis
    unfolding lane_slots_exact [OF assms(1,2,6)] lane_slots_exact [OF assms(3,4,6)] by blast
qed

lemma lane_slots_lane:
  assumes "0 \<le> t" "t < T" "T * N \<le> 2 ^ 31" "i \<in> lane_slots N T t"
  shows "i mod T = t"
  using assms(4) unfolding lane_slots_exact [OF assms(1-3)] using assms(1,2) by auto

subsection \<open>Writes and reads\<close>

lemma set_upto_loop: "set [0..N - 1] = {0..<N}"
  by auto

lemma fold_writes_outside:
  "i \<notin> idx ` set xs \<Longrightarrow> fold (\<lambda>n m. m(idx n := v n)) xs m i = m i"
  by (induction xs arbitrary: m) auto

lemma fold_writes_inside:
  "i \<in> idx ` set xs \<Longrightarrow>
     fold (\<lambda>n m. m(idx n := v n)) xs m i = fold (\<lambda>n m. m(idx n := v n)) xs m' i"
proof (induction xs arbitrary: m m')
  case Nil
  then show ?case by simp
next
  case (Cons x xs)
  show ?case
  proof (cases "i \<in> idx ` set xs")
    case True
    from Cons.IH [OF this] show ?thesis by (simp del: fun_upd_apply)
  next
    case False
    with Cons.prems have "i = idx x" by auto
    with False show ?thesis by (simp add: fold_writes_outside fun_upd_same del: fun_upd_apply)
  qed
qed

lemma fold_writes_const:
  "i \<in> idx ` set xs \<Longrightarrow> fold (\<lambda>n m. m(idx n := c)) xs m i = c"
proof (induction xs arbitrary: m)
  case Nil
  then show ?case by simp
next
  case (Cons x xs)
  show ?case
  proof (cases "i \<in> idx ` set xs")
    case True
    from Cons.IH [OF this] show ?thesis by (simp del: fun_upd_apply)
  next
    case False
    with Cons.prems have "i = idx x" by auto
    with False show ?thesis by (simp add: fold_writes_outside fun_upd_same del: fun_upd_apply)
  qed
qed

lemma InitSampleArray_slot:
  "InitSampleArray v N T t mem i = (if i \<in> lane_slots N T t then float_of_int v else mem i)"
  unfolding InitSampleArray_def for_loop_upto lane_slots_def set_upto_loop [symmetric]
  by (simp add: fold_writes_outside fold_writes_const)

lemma store_back_prevSample:
  "d_prevSample (store_back N T t L d) =
     fold (\<lambda>n m. m(flat_index T n t := localPrevSample L n)) [0..N - 1] (d_prevSample d)"
proof -
  have "d_prevSample (fold (\<lambda>n d. d\<lparr>d_prevSample := (d_prevSample d)(flat_index T n t := localPrevSample L n)\<rparr>) xs d0)
        = fold (\<lambda>n m. m(flat_index T n t := localPrevSample L n)) xs (d_prevSample d0)" for xs and d0 :: "'a device"
    by (induction xs arbitrary: d0) simp_all
  then show ?thesis
    unfolding store_back_def for_loop_upto by simp
qed

lemma store_back_outside:
  "i \<notin> lane_slots N T t \<Longrightarrow> d_prevSample (store_back N T t L d) i = d_prevSample d i"
  unfolding store_back_prevSample lane_slots_def set_upto_loop [symmetric]
  by (rule fold_writes_outside)

lemma store_back_inside:
  "i \<in> lane_slots N T t \<Longrightarrow>
     d_prevSample (store_back N T t L d) i = d_prevSample (store_back N T t L d') i"
  unfolding store_back_prevSample lane_slots_def set_upto_loop [symmetric]
  by (rule fold_writes_inside)

lemma load_single_reads:
  assumes "\<forall>i\<in>lane_slots N T t. mem i = mem' i"
  shows "load_single N T pdf t mem L = load_single N T pdf t mem' L"
proof -
  have "\<And>n. n \<in> set [0..N - 1] \<Longrightarrow> mem (flat_index T n t) = mem' (flat_index T n t)"
    using assms unfolding lane_slots_def set_upto_loop by blast
  then show ?thesis
    unfolding load_single_def for_loop_upto
    by (intro fold_cong refl) simp
qed

lemma single_same_lane:
  assumes "same_lane N T t d d'"
  shows "same_lane N T t (WarmupMetropolis_single rng N T pdf stack h iters t d)
                         (WarmupMetropolis_single rng N T pdf stack h iters t d')"
proof -
  from assms have r: "d_randState d t = d_randState d' t"
    and m: "\<forall>i\<in>lane_slots N T t. d_prevSample d i = d_prevSample d' i"
    by (simp_all add: same_lane_def)
  have "load_single N T pdf t (d_prevSample d) L = load_single N T pdf t (d_prevSample d') L" for L :: "'a lane"
    by (rule load_single_reads) (rule m)
  with r show ?thesis
    by (simp add: same_lane_def WarmupMetropolis_single_def Let_def store_back_inside [of _ N T t _ d d'])
qed

lemma lane_frame:
  assumes "WarmupMetropolis rng N T pdfs = Inr k"
  shows "i \<notin> lane_slots N T t \<Longrightarrow> d_prevSample (k stack h iters t d) i = d_prevSample d i"
    and "j \<noteq> t \<Longrightarrow> d_randState (k stack h iters t d) j = d_randState d j"
    and "same_lane N T t d d' \<Longrightarrow> same_lane N T t (k stack h iters t d) (k stack h iters t d')"
proof -
  from assms obtain pdf where k: "k = WarmupMetropolis_single rng N T pdf"
    by (rule WarmupMetropolis_cases)
  show "i \<notin> lane_slots N T t \<Longrightarrow> d_prevSample (k stack h iters t d) i = d_prevSample d i"
    by (simp add: k WarmupMetropolis_single_def Let_def store_back_outside)
  show "j \<noteq> t \<Longrightarrow> d_randState (k stack h iters t d) j = d_randState d j"
    by (simp add: k WarmupMetropolis_single_def Let_def)
  show "same_lane N T t d d' \<Longrightarrow> same_lane N T t (k stack h iters t d) (k stack h iters t d')"
    by (simp add: k single_same_lane)
qed

lemma load_single_copy:
  "load_single N T pdf t mem L = fold (\<lambda>n. copy_dimension T n pdf t mem) [0..N - 1] L"
proof -
  have eq: "(\<lambda>n L. let L' = L\<lparr>localPrevSample := (localPrevSample L)(n := mem (flat_index T n t))\<rparr>
               in L'\<lparr>localInvPrevPDF :=
                       (localInvPrevPDF L')(n := fdiv (float_of_int 1) (pdf (localPrevSample L' n)))\<rparr>)
        = (\<lambda>n. copy_dimension T n pdf t mem)"
    by (intro ext) (simp add: copy_dimension_def Let_def float_of_int_1)
  show ?thesis
    unfolding load_single_def for_loop_upto eq ..
qed

lemma copy_dimension_at [simp]:
  "localPrevSample (copy_dimension T n pdf t mem L) m =
     (if m = n then mem (flat_index T n t) else localPrevSample L m)"
  "localInvPrevPDF (copy_dimension T n pdf t mem L) m =
     (if m = n then fdiv f_one (pdf (mem (flat_index T n t))) else localInvPrevPDF L m)"
  by (simp_all add: copy_dimension_def Let_def)

lemma copy_fold_at:
  "localPrevSample (fold (\<lambda>n. copy_dimension T n pdf t mem) xs L) n =
     (if n \<in> set xs then mem (flat_index T n t) else localPrevSample L n) \<and>
   localInvPrevPDF (fold (\<lambda>n. copy_dimension T n pdf t mem) xs L) n =
     (if n \<in> set xs then fdiv f_one (pdf (mem (flat_index T n t))) else localInvPrevPDF L n)"
  by (induction xs arbitrary: L) auto

lemma load_single_at:
  "localPrevSample (load_single N T pdf t mem L) n =
     (if 0 \<le> n \<and> n < N then mem (flat_index T n t) else localPrevSample L n)"
  "localInvPrevPDF (load_single N T pdf t mem L) n =
     (if 0 \<le> n \<and> n < N then fdiv f_one (pdf (mem (flat_index T n t))) else localInvPrevPDF L n)"
  unfolding load_single_copy
  using copy_fold_at [of T pdf t mem "[0..N - 1]" L n] by auto

lemma fold_writes_at:
  assumes "n \<in> set xs" and "\<And>n'. n' \<in> set xs \<Longrightarrow> idx n' = idx n \<Longrightarrow> n' = n"
  shows "fold (\<lambda>n m. m(idx n := v n)) xs m (idx n) = v n"
  using assms
proof (induction xs arbitrary: m)
  case Nil
  then show ?case by simp
next
  case (Cons x xs)
  show ?case
  proof (cases "n \<in> set xs")
    case True
    from Cons.IH [OF this] Cons.prems(2) show ?thesis by (simp del: fun_upd_apply)
  next
    case False
    with Cons.prems(1) have x: "x = n" by simp
    have "idx n \<notin> idx ` set xs"
    proof
      assume "idx n \<in> idx ` set xs"
      then obtain n' where "n' \<in> set xs" "idx n' = idx n" by auto
      with Cons.prems(2) [of n'] False show False by auto
    qed
    with x show ?thesis by (simp add: fold_writes_outside fun_upd_same del: fun_upd_apply)
  qed
qed

lemma store_back_at:
  assumes "0 \<le> n" "n < N" "0 \<le> t" "t < T" "T * N \<le> 2 ^ 31"
  shows "d_prevSample (store_back N T t L d) (T * n + t) = localPrevSample L n"
proof -
  have "d_prevSample (store_back N T t L d) (flat_index T n t) = localPrevSample L n"
    unfolding store_back_prevSample
  proof (rule fold_writes_at [where idx = "\<lambda>n. flat_index T n t" and v = "localPrevSample L"])
    show "n \<in> set [0..N - 1]" using assms by simp
    fix n' assume "n' \<in> set [0..N - 1]" "flat_index T n' t = flat_index T n t"
    with assms have "T * n' + t = T * n + t"
      by (simp add: flat_index_lane [where N = N])
    with assms show "n' = n" by simp
  qed
  with assms show ?thesis by (simp add: flat_index_lane [where N = N])
qed

text \<open>
  Claim C6, as the code has it.  The index \<open>totalThreads * n + threadId\<close> is computed in
  32 bits.  While \<open>totalThreads * nNucleons \<le> 2\<^sup>3\<^sup>1\<close> it does not wrap around for any lane
  \<open>0 \<le> t < totalThreads\<close> and dimension \<open>0 \<le> n < nNucleons\<close>; then \<^verbatim>\<open>InitSampleArray\<close> fills
  the slot \<open>totalThreads * n + t\<close>, the load of \<^verbatim>\<open>WarmupMetropolis\<close> (and the copy that both
  overloads of \<^verbatim>\<open>WarmupCopy\<close> make) puts that slot into the local entry \<open>n\<close>, and the store puts
  the local entry back there; every slot of lane \<open>t\<close> has an index that is \<open>t\<close> modulo
  \<open>totalThreads\<close>, and two lanes share no slot.  For all sizes, \<^verbatim>\<open>InitSampleArray\<close> writes
  exactly the slots its thread computes, and a thread of \<^verbatim>\<open>WarmupMetropolis\<close> changes no slot
  and no stream state but those, and what it produces depends on nothing but them.
\<close>

theorem lane_layout:
  "(0 \<le> n \<and> n < N \<and> 0 \<le> t \<and> t < T \<and> T * N \<le> 2 ^ 31 \<longrightarrow>
      flat_index T n t = T * n + t \<and>
      InitSampleArray v N T t mem (T * n + t) = float_of_int v \<and>
      localPrevSample (load_single N T pdf t mem L) n = mem (T * n + t) \<and>
      localPrevSample (copy_dimension T n pdf t mem L) n = mem (T * n + t) \<and>
      d_prevSample (store_back N T t L d) (T * n + t) = localPrevSample L n) \<and>
   InitSampleArray v N T t mem i = (if i \<in> lane_slots N T t then float_of_int v else mem i) \<and>
   (WarmupMetropolis rng N T pdfs = Inr k \<longrightarrow>
      (\<forall>i. i \<notin> lane_slots N T t \<longrightarrow> d_prevSample (k stack h iters t d) i = d_prevSample d i) \<and>
      (\<forall>j. j \<noteq> t \<longrightarrow> d_randState (k stack h iters t d) j = d_randState d j) \<and>
      (same_lane N T t d d' \<longrightarrow> same_lane N T t (k stack h iters t d) (k stack h iters t d'))) \<and>
   (0 \<le> t \<and> t < T \<and> T * N \<le> 2 ^ 31 \<longrightarrow>
      lane_slots N T t = (\<lambda>n. T * n + t) ` {0..<N} \<and> (\<forall>i\<in>lane_slots N T t. i mod T = t)) \<and>
   (0 \<le> t \<and> t < T \<and> 0 \<le> t' \<and> t' < T \<and> t \<noteq> t' \<and> T * N \<le> 2 ^ 31 \<longrightarrow>
      lane_slots N T t \<inter> lane_slots N T t' = {})"
proof (intro conjI impI allI ballI)
  assume a: "0 \<le> n \<and> n < N \<and> 0 \<le> t \<and> t < T \<and> T * N \<le> 2 ^ 31"
  then show e: "flat_index T n t = T * n + t"
    by (simp add: flat_index_lane [where N = N])
  from a have "flat_index T n t \<in> lane_slots N T t"
    unfolding lane_slots_def by simp
  then show "InitSampleArray v N T t mem (T * n + t) = float_of_int v"
    by (simp add: InitSampleArray_slot e [symmetric])
  from a show "localPrevSample (load_single N T pdf t mem L) n = mem (T * n + t)"
    by (simp add: load_single_at e)
  show "localPrevSample (copy_dimension T n pdf t mem L) n = mem (T * n + t)"
    by (simp add: e)
  from a show "d_prevSample (store_back N T t L d) (T * n + t) = localPrevSample L n"
    by (simp add: store_back_at)
next
  show "InitSampleArray v N T t mem i = (if i \<in> lane_slots N T t then float_of_int v else mem i)"
    by (rule InitSampleArray_slot)
next
  fix i assume "WarmupMetropolis rng N T pdfs = Inr k" "i \<notin> lane_slots N T t"
  then show "d_prevSample (k stack h iters t d) i = d_prevSample d i"
    by (rule lane_frame)
next
  fix j assume "WarmupMetropolis rng N T pdfs = Inr k" "j \<noteq> t"
  then show "d_randState (k stack h iters t d) j = d_randState d j"
    by (rule lane_frame)
next
  assume "WarmupMetropolis rng N T pdfs = Inr k" "same_lane N T t d d'"
  then show "same_lane N T t (k stack h iters t d) (k stack h iters t d')"
    by (rule lane_frame)
next
  assume "0 \<le> t \<and> t < T \<and> T * N \<le> 2 ^ 31"
  then show "lane_slots N T t = (\<lambda>n. T * n + t) ` {0..<N}"
    by (simp add: lane_slots_exact)
next
  fix i assume "0 \<le> t \<and> t < T \<and> T * N \<le> 2 ^ 31" "i \<in> lane_slots N T t"
  then show "i mod T = t" by (simp add: lane_slots_lane [where N = N])
next
  assume "0 \<le> t \<and> t < T \<and> 0 \<le> t' \<and> t' < T \<and> t \<noteq> t' \<and> T * N \<le> 2 ^ 31"
  then show "lane_slots N T t \<inter> lane_slots N T t' = {}"
    by (simp add: lane_slots_disjoint)
qed

theorem lane_layout_witness:
  "flat_index 2 1 0 = 2 \<and>
   lane_slots 2 2 0 = {0, 2} \<and>
   lane_slots 2 2 0 \<inter> lane_slots 2 2 1 = {} \<and>
   InitSampleArray 7 2 2 0 nan_memory 2 = float_of_int 7 \<and>
   InitSampleArray 7 2 2 0 nan_memory 1 = f_nan \<and>
   d_prevSample (store_back 2 2 0 (declare_locals nan_stack 0) unit_device) 2 = f_nan \<and>
   d_prevSample (WarmupMetropolis_single (tape (\<lambda>k. f_one)) 2 2 (\<lambda>x. x) nan_stack f_one 3 0 unit_device) 1
     = f_one \<and>
   d_randState (WarmupMetropolis_single (tape (\<lambda>k. f_one)) 2 2 (\<lambda>x. x) nan_stack f_one 3 0 unit_device) 1
     = 0 \<and>
   localPrevSample (load_single 2 2 (\<lambda>x. x) 0 (\<lambda>i. float_of_int i) (declare_locals nan_stack (0::nat))) 1
     = float_of_int 2 \<and>
   same_lane 2 2 0
     (WarmupMetropolis_single (tape (\<lambda>k. f_one)) 2 2 (\<lambda>x. x) nan_stack f_one 3 0 unit_device)
     (WarmupMetropolis_single (tape (\<lambda>k. f_one)) 2 2 (\<lambda>x. x) nan_stack f_one 3 0
        (unit_device\<lparr>d_prevSample := (d_prevSample unit_device)(1 := f_nan)\<rparr>))"
proof -
  have b: "WarmupMetropolis (tape (\<lambda>k. f_one)) 2 2 [\<lambda>x. x] =
     Inr (WarmupMetropolis_single (tape (\<lambda>k. f_one)) 2 2 (\<lambda>x. x))"
    by (simp add: WarmupMetropolis_def)
  note L = lane_layout [where N = 2 and T = 2 and t = 0 and t' = 1 and rng = "tape (\<lambda>k. f_one)"
      and pdfs = "[\<lambda>x. x]" and k = "WarmupMetropolis_single (tape (\<lambda>k. f_one)) 2 2 (\<lambda>x. x)"
      and stack = nan_stack and h = f_one and iters = 3 and v = 7 and n = 1 and pdf = "\<lambda>x. x"]
  have img: "(\<lambda>n. 2 * n + 0) ` {0..<2::int} = {0, 2}"
    by (auto simp: image_iff)
  have s: "lane_slots 2 2 0 = {0, 2}"
    using L [THEN conjunct2, THEN conjunct2, THEN conjunct2, THEN conjunct1] img by simp
  have "flat_index 2 1 0 = 2"
    using L [THEN conjunct1] by simp
  moreover have "InitSampleArray 7 2 2 0 nan_memory 2 = float_of_int 7"
    using L [where mem = nan_memory, THEN conjunct1] by simp
  moreover have "InitSampleArray 7 2 2 0 nan_memory 1 = f_nan"
    using L [where mem = nan_memory and i = 1, THEN conjunct2, THEN conjunct1] s
    by (simp add: nan_memory_def)
  moreover have "d_prevSample (store_back 2 2 0 (declare_locals nan_stack 0) unit_device) 2 = f_nan"
    using L [where L = "declare_locals nan_stack 0" and d = unit_device, THEN conjunct1]
    by (simp add: declare_locals_def nan_stack_def)
  moreover have "lane_slots 2 2 0 \<inter> lane_slots 2 2 1 = {}"
    using L [THEN conjunct2, THEN conjunct2, THEN conjunct2, THEN conjunct2] by simp
  moreover have "d_prevSample (WarmupMetropolis_single (tape (\<lambda>k. f_one)) 2 2 (\<lambda>x. x) nan_stack f_one 3 0 unit_device) 1 = f_one"
    using L [where d = unit_device, THEN conjunct2, THEN conjunct2, THEN conjunct1] b s
    by (simp add: unit_device_def)
  moreover have "d_randState (WarmupMetropolis_single (tape (\<lambda>k. f_one)) 2 2 (\<lambda>x. x) nan_stack f_one 3 0 unit_device) 1 = 0"
    using L [where d = unit_device, THEN conjunct2, THEN conjunct2, THEN conjunct1] b
    by (simp add: unit_device_def)
  moreover have "localPrevSample (load_single 2 2 (\<lambda>x. x) 0 (\<lambda>i. float_of_int i) (declare_locals nan_stack (0::nat))) 1
     = float_of_int 2"
    using L [where mem = "\<lambda>i. float_of_int i" and L = "declare_locals nan_stack 0"
        and d = unit_device, THEN conjunct1]
    by simp
  moreover have "same_lane 2 2 0
     (WarmupMetropolis_single (tape (\<lambda>k. f_one)) 2 2 (\<lambda>x. x) nan_stack f_one 3 0 unit_device)
     (WarmupMetropolis_single (tape (\<lambda>k. f_one)) 2 2 (\<lambda>x. x) nan_stack f_one 3 0
        (unit_device\<lparr>d_prevSample := (d_prevSample unit_device)(1 := f_nan)\<rparr>))"
  proof -
    have "same_lane 2 2 0 unit_device (unit_device\<lparr>d_prevSample := (d_prevSample unit_device)(1 := f_nan)\<rparr>)"
      by (simp add: same_lane_def s)
    with L [where d = unit_device
        and d' = "unit_device\<lparr>d_prevSample := (d_prevSample unit_device)(1 := f_nan)\<rparr>",
        THEN conjunct2, THEN conjunct2, THEN conjunct1] b
    show ?thesis by simp
  qed
  ultimately show ?thesis using s by simp
qed

text \<open>
  The claim as stated, for all sizes, fails where the index wraps around.  With \<open>2\<^sup>2\<^sup>4\<close> lanes,
  dimension 128 of lane 0 is not at the index \<open>2\<^sup>2\<^sup>4 * 128 + 0 = 2\<^sup>3\<^sup>1\<close>: the thread computes
  \<open>- 2\<^sup>3\<^sup>1\<close>, writes there, and leaves the slot \<open>2\<^sup>3\<^sup>1\<close> as it was.  With 3 lanes and
  1431655767 dimensions, dimension 1431655766 of lane 0 and dimension 0 of lane 2 are both
  at the index 2: thread 0 writes a slot of lane 2.
\<close>

theorem lane_layout_counterexample:
  "flat_index 16777216 128 0 = - 2147483648 \<and>
   InitSampleArray 7 129 16777216 0 nan_memory (- 2147483648) = float_of_int 7 \<and>
   InitSampleArray 7 129 16777216 0 nan_memory (16777216 * 128 + 0) = f_nan \<and>
   flat_index 3 1431655766 0 = 2 \<and> flat_index 3 0 2 = 2 \<and>
   InitSampleArray 7 1431655767 3 0 nan_memory 2 = float_of_int 7 \<and>
   lane_slots 1431655767 3 0 \<inter> lane_slots 1431655767 3 2 \<noteq> {}"
proof -
  have a: "flat_index 16777216 128 0 = - 2147483648"
    and b: "flat_index 3 1431655766 0 = 2" and c: "flat_index 3 0 2 = 2"
    by (simp_all add: flat_index_wrap)
  have "- 2147483648 \<in> lane_slots 129 16777216 0"
    unfolding lane_slots_def by (rule image_eqI [where x = 128]) (simp_all add: a)
  then have 1: "InitSampleArray 7 129 16777216 0 nan_memory (- 2147483648) = float_of_int 7"
    by (simp add: InitSampleArray_slot)
  have "16777216 * 128 + 0 \<notin> lane_slots 129 16777216 0"
  proof
    assume "16777216 * 128 + 0 \<in> lane_slots 129 16777216 0"
    then obtain n where "flat_index 16777216 n 0 = 16777216 * 128 + 0"
      unfolding lane_slots_def by auto
    with flat_index_range(2) [of 16777216 n 0] show False by simp
  qed
  then have 2: "InitSampleArray 7 129 16777216 0 nan_memory (16777216 * 128 + 0) = f_nan"
    by (simp only: InitSampleArray_slot if_False nan_memory_def)
  have 3: "2 \<in> lane_slots 1431655767 3 0"
    unfolding lane_slots_def by (rule image_eqI [where x = 1431655766]) (simp_all add: b)
  have 4: "2 \<in> lane_slots 1431655767 3 2"
    unfolding lane_slots_def by (rule image_eqI [where x = 0]) (simp_all add: c)
  from 3 have 5: "InitSampleArray 7 1431655767 3 0 nan_memory 2 = float_of_int 7"
    by (simp add: InitSampleArray_slot)
  from 3 4 have "lane_slots 1431655767 3 0 \<inter> lane_slots 1431655767 3 2 \<noteq> {}" by blast
  with a b c 1 2 5 show ?thesis by blast
qed

text \<open>Hence, within that bound, the order in which a launch runs its threads does not
  matter: any two of them commute.\<close>

lemma threads_commute:
  assumes k: "WarmupMetropolis rng N T pdfs = Inr k"
    and t: "0 \<le> t" "t < T" "0 \<le> t'" "t' < T" "t \<noteq> t'" and bound: "T * N \<le> 2 ^ 31"
  shows "k stack h iters t (k stack h iters t' d) = k stack h iters t' (k stack h iters t d)"
proof -
  let ?A = "k stack h iters t" and ?B = "k stack h iters t'"
  have disj: "lane_slots N T t \<inter> lane_slots N T t' = {}"
    using t bound by (rule lane_slots_disjoint)
  have wr: "i \<notin> lane_slots N T u \<Longrightarrow> d_prevSample (k stack h iters u e) i = d_prevSample e i"
    and st: "j \<noteq> u \<Longrightarrow> d_randState (k stack h iters u e) j = d_randState e j"
    and rd: "same_lane N T u e e' \<Longrightarrow> same_lane N T u (k stack h iters u e) (k stack h iters u e')"
    for i j u and e e' :: "'a device"
    by (rule lane_frame [OF k]; assumption)+

  have keepB: "same_lane N T t (?B e) e" for e
    unfolding same_lane_def
  proof (intro conjI ballI)
    show "d_randState (?B e) t = d_randState e t" using t(5) by (simp add: st)
    fix i assume "i \<in> lane_slots N T t"
    with disj have "i \<notin> lane_slots N T t'" by auto
    then show "d_prevSample (?B e) i = d_prevSample e i" by (rule wr)
  qed
  have keepA: "same_lane N T t' (?A e) e" for e
    unfolding same_lane_def
  proof (intro conjI ballI)
    show "d_randState (?A e) t' = d_randState e t'" using t(5) by (simp add: st)
    fix i assume "i \<in> lane_slots N T t'"
    with disj have "i \<notin> lane_slots N T t" by auto
    then show "d_prevSample (?A e) i = d_prevSample e i" by (rule wr)
  qed
  have AB: "same_lane N T t (?A (?B d)) (?A d)" by (rule rd) (rule keepB)
  have BA: "same_lane N T t' (?B (?A d)) (?B d)" by (rule rd) (rule keepA)
  have "d_prevSample (?A (?B d)) i = d_prevSample (?B (?A d)) i" for i
  proof (cases "i \<in> lane_slots N T t")
    case True
    with disj have "i \<notin> lane_slots N T t'" by auto
    with True AB show ?thesis by (simp add: same_lane_def wr)
  next
    case False
    show ?thesis
    proof (cases "i \<in> lane_slots N T t'")
      case True
      with False BA show ?thesis by (simp add: same_lane_def wr)
    next
      case n: False
      with False show ?thesis by (simp add: wr)
    qed
  qed
  moreover have "d_randState (?A (?B d)) j = d_randState (?B (?A d)) j" for j
  proof (cases "j = t")
    case True
    with AB t(5) show ?thesis by (simp add: same_lane_def st)
  next
    case False
    show ?thesis
    proof (cases "j = t'")
      case True
      with False BA show ?thesis by (simp add: same_lane_def st)
    next
      case n: False
      with False show ?thesis by (simp add: st)
    qed
  qed
  ultimately show ?thesis by (intro device.equality ext) simp_all
qed

lemma launch_order_irrelevant:
  assumes k: "WarmupMetropolis rng N T pdfs = Inr k" and bound: "T * N \<le> 2 ^ 31"
    and "set threads \<subseteq> {0..<T}" "mset threads = mset threads'"
  shows "launch (k stack h iters) threads d = launch (k stack h iters) threads' d"
proof -
  have "k stack h iters x \<circ> k stack h iters y = k stack h iters y \<circ> k stack h iters x"
    if "x \<in> set threads" "y \<in> set threads" for x y
  proof (cases "x = y")
    case True
    then show ?thesis by simp
  next
    case False
    with that assms(3) have "0 \<le> x" "x < T" "0 \<le> y" "y < T" by auto
    from threads_commute [OF k this False bound] show ?thesis by (intro ext) simp
  qed
  from fold_multiset_equiv [OF this assms(4)] show ?thesis
    unfolding launch_def by simp
qed

section \<open>The cache of inverse densities\<close>

lemma step_dimension_other:
  "m \<noteq> n \<Longrightarrow> localPrevSample (step_dimension rng pdf n h L) m = localPrevSample L m"
  "m \<noteq> n \<Longrightarrow> localInvPrevPDF (step_dimension rng pdf n h L) m = localInvPrevPDF L m"
  by (simp_all add: step_dimension_def Let_def split: prod.split)

lemma step_dimension_same:
  "localPrevSample (step_dimension rng pdf n h L) n =
     fst (MetropolisHastingsStep rng pdf (localPrevSample L n) (localInvPrevPDF L n) h (localRandState L))"
  "localInvPrevPDF (step_dimension rng pdf n h L) n =
     fst (snd (MetropolisHastingsStep rng pdf (localPrevSample L n) (localInvPrevPDF L n) h (localRandState L)))"
  by (simp_all add: step_dimension_def Let_def split: prod.split)

lemma MetropolisHastingsStep_cache:
  assumes "c = fdiv f_one (pdf x)"
  shows "fst (snd (MetropolisHastingsStep rng pdf x c h s)) =
           fdiv f_one (pdf (fst (MetropolisHastingsStep rng pdf x c h s)))"
  using assms
  by (simp add: MetropolisHastingsStep_def Let_def float_of_int_1 split: prod.split)

lemma step_dimension_consistent:
  assumes "cache_consistent binding N L"
  shows "cache_consistent binding N (step_dimension rng (binding n) n h L)"
  unfolding cache_consistent_def
proof
  fix m assume m: "m \<in> {0..<N}"
  with assms have c: "localInvPrevPDF L m = fdiv f_one (binding m (localPrevSample L m))"
    by (simp add: cache_consistent_def)
  show "localInvPrevPDF (step_dimension rng (binding n) n h L) m =
          fdiv f_one (binding m (localPrevSample (step_dimension rng (binding n) n h L) m))"
  proof (cases "m = n")
    case True
    with c show ?thesis
      by (simp add: step_dimension_same MetropolisHastingsStep_cache)
  next
    case False
    with c show ?thesis by (simp add: step_dimension_other)
  qed
qed

lemma fold_steps_consistent:
  "cache_consistent binding N L \<Longrightarrow>
   cache_consistent binding N (fold (\<lambda>n. step_dimension rng (binding (int n)) (int n) h) xs L)"
  by (induction xs arbitrary: L) (simp_all add: step_dimension_consistent)

lemma sweep_single_fold:
  "sweep_single rng N pdf h L = fold (\<lambda>n. step_dimension rng pdf (int n) h) [0..<nat N] L"
  by (simp add: sweep_single_def for_loop_upt)

lemma sweep_single_consistent:
  "cache_consistent (\<lambda>n. pdf) N L \<Longrightarrow> cache_consistent (\<lambda>n. pdf) N (sweep_single rng N pdf h L)"
  unfolding sweep_single_fold
  by (rule fold_steps_consistent [where binding = "\<lambda>n. pdf"])

lemma load_single_consistent: "cache_consistent (\<lambda>n. pdf) N (load_single N T pdf t mem L)"
  by (simp add: cache_consistent_def load_single_at)

lemma copy_dimension_consistent:
  assumes "cache_consistent binding n L"
  shows "cache_consistent binding (n + 1) (copy_dimension T n (binding n) t mem L)"
  unfolding cache_consistent_def
proof
  fix m assume "m \<in> {0..<n + 1}"
  then have "m = n \<or> m \<in> {0..<n}" by auto
  with assms show "localInvPrevPDF (copy_dimension T n (binding n) t mem L) m =
      fdiv f_one (binding m (localPrevSample (copy_dimension T n (binding n) t mem L) m))"
    by (auto simp: cache_consistent_def)
qed

text \<open>
  Claim C4.  The cache holds \<open>1 / density(sample)\<close> for every dimension, with the density
  bound to that dimension: after the load of the kernel and after any number of sweeps, and
  a step keeps it so from any state in which it holds.  The copy that both overloads of
  \<^verbatim>\<open>WarmupCopy\<close> make for dimension \<open>n\<close> sets the entry of that dimension right and keeps those
  of the dimensions before it.  A step replaces the cache entry of its dimension by
  \<open>1 / proposalDensity\<close> when it accepts and leaves it alone when it rejects; nothing is
  recomputed on a rejection.
\<close>

theorem cache_invariant:
  "cache_consistent (\<lambda>n. pdf) N
     ((sweep_single rng N pdf h ^^ j) (load_single N T pdf t mem L0)) \<and>
   (cache_consistent binding n L \<longrightarrow>
      cache_consistent binding (n + 1) (copy_dimension T n (binding n) t mem L)) \<and>
   (cache_consistent binding N L \<longrightarrow> cache_consistent binding N (step_dimension rng (binding n) n h L)) \<and>
   localInvPrevPDF (step_dimension rng pdf n h L) n =
     (let z = fst (curand_normal rng (localRandState L));
          proposal = fadd (localPrevSample L n) (fmul h z);
          u = fst (curand_uniform rng (snd (curand_normal rng (localRandState L))))
      in if fge (fmul (pdf proposal) (localInvPrevPDF L n)) u
         then fdiv f_one (pdf proposal) else localInvPrevPDF L n)"
proof (intro conjI impI)
  show "cache_consistent (\<lambda>n. pdf) N ((sweep_single rng N pdf h ^^ j) (load_single N T pdf t mem L0))"
    by (rule funpow_invariant) (simp_all add: load_single_consistent sweep_single_consistent)
  show "cache_consistent binding (n + 1) (copy_dimension T n (binding n) t mem L)"
    if "cache_consistent binding n L"
    using that by (rule copy_dimension_consistent)

  show "cache_consistent binding N (step_dimension rng (binding n) n h L)"
    if "cache_consistent binding N L"
    using that by (rule step_dimension_consistent)
  show "localInvPrevPDF (step_dimension rng pdf n h L) n =
     (let z = fst (curand_normal rng (localRandState L));
          proposal = fadd (localPrevSample L n) (fmul h z);
          u = fst (curand_uniform rng (snd (curand_normal rng (localRandState L))))
      in if fge (fmul (pdf proposal) (localInvPrevPDF L n)) u
         then fdiv f_one (pdf proposal) else localInvPrevPDF L n)"
    by (simp add: step_dimension_same MetropolisHastingsStep_def Let_def float_of_int_1 split: prod.split)
qed

theorem cache_invariant_witness:
  "cache_consistent (\<lambda>n x. x) 2
     (step_dimension (tape (\<lambda>k. f_one)) (\<lambda>x. x) 1 f_one
        (load_single 2 1 (\<lambda>x. x) 0 (\<lambda>i. f_one) (declare_locals nan_stack 0))) \<and>
   localInvPrevPDF
     (step_dimension (tape (\<lambda>k. f_one)) (\<lambda>x. x) 1 f_one
        (load_single 2 1 (\<lambda>x. x) 0 (\<lambda>i. f_one) (declare_locals nan_stack 0))) 1 =
   fdiv f_one (localPrevSample
     (step_dimension (tape (\<lambda>k. f_one)) (\<lambda>x. x) 1 f_one
        (load_single 2 1 (\<lambda>x. x) 0 (\<lambda>i. f_one) (declare_locals nan_stack 0))) 1) \<and>
   cache_consistent (\<lambda>n x. x) 2
     (copy_dimension 1 1 (\<lambda>x. x) 0 (\<lambda>i. f_one)
        (copy_dimension 1 0 (\<lambda>x. x) 0 (\<lambda>i. f_one) (declare_locals nan_stack (0::nat))))"
proof -
  let ?C = "copy_dimension 1 0 (\<lambda>x. x) 0 (\<lambda>i. f_one) (declare_locals nan_stack (0::nat))"
  have "cache_consistent (\<lambda>n x. x) 0 (declare_locals nan_stack (0::nat))"
    by (simp add: cache_consistent_def)
  with cache_invariant [where binding = "\<lambda>n x. x" and n = 0 and T = 1 and t = 0
      and mem = "\<lambda>i. f_one" and L = "declare_locals nan_stack (0::nat)",
      THEN conjunct2, THEN conjunct1]
  have "cache_consistent (\<lambda>n x. x) 1 ?C" by simp
  with cache_invariant [where binding = "\<lambda>n x. x" and n = 1 and T = 1 and t = 0
      and mem = "\<lambda>i. f_one" and L = ?C, THEN conjunct2, THEN conjunct1]
  have c: "cache_consistent (\<lambda>n x. x) 2 (copy_dimension 1 1 (\<lambda>x. x) 0 (\<lambda>i. f_one) ?C)"
    by simp
  let ?L = "load_single 2 1 (\<lambda>x. x) 0 (\<lambda>i. f_one) (declare_locals nan_stack 0)"
  have a: "cache_consistent (\<lambda>n x. x) 2 ?L"
    using cache_invariant [where pdf = "\<lambda>x. x" and N = 2 and j = 0 and T = 1 and t = 0
        and mem = "\<lambda>i. f_one" and ?L0.0 = "declare_locals nan_stack 0", THEN conjunct1]
    by simp
  have b: "cache_consistent (\<lambda>n x. x) 2 (step_dimension (tape (\<lambda>k. f_one)) (\<lambda>x. x) 1 f_one ?L)"
    using cache_invariant [where binding = "\<lambda>n x. x" and N = 2 and L = ?L and n = 1
        and rng = "tape (\<lambda>k. f_one)" and h = f_one, THEN conjunct2, THEN conjunct2, THEN conjunct1] a
    by (rule mp)
  then have "cache_consistent (\<lambda>n x. x) 2 (step_dimension (tape (\<lambda>k. f_one)) (\<lambda>x. x) 1 f_one ?L) \<and>
     localInvPrevPDF (step_dimension (tape (\<lambda>k. f_one)) (\<lambda>x. x) 1 f_one ?L) 1 =
     fdiv f_one (localPrevSample (step_dimension (tape (\<lambda>k. f_one)) (\<lambda>x. x) 1 f_one ?L) 1)"
    by (simp add: cache_consistent_def)
  with c show ?thesis by blast
qed

section \<open>Packs of the wrong length\<close>

text \<open>
  Claim C7.  A pack of densities that selects the heterogeneous branch (any pack but a
  single density) and whose length is not \<open>nNucleons\<close> fails the \<^verbatim>\<open>static_assert\<close>: the
  instantiation yields no kernel, whatever the run-time arguments would have been.  Every
  kernel that builds has one density or exactly \<open>nNucleons\<close> of them.
\<close>

theorem mismatched_pack_rejected:
  "(length pdfs \<noteq> 1 \<and> int (length pdfs) \<noteq> N \<longrightarrow>
      WarmupMetropolis rng N T pdfs = Inl IncorrectNumberOfPdfs) \<and>
   (WarmupMetropolis rng N T pdfs = Inr k \<longrightarrow> length pdfs = 1 \<or> int (length pdfs) = N)"
  by (auto simp: WarmupMetropolis_def split: list.splits)

theorem mismatched_pack_rejected_witness:
  "WarmupMetropolis (tape (\<lambda>k. f_one)) 3 1 [\<lambda>x. x, \<lambda>x. f_one] = Inl IncorrectNumberOfPdfs"
  using mismatched_pack_rejected [of "[\<lambda>x. x, \<lambda>x. f_one]" 3 "tape (\<lambda>k. f_one)" 1]
  by simp

section \<open>The local arrays, and one density repeated\<close>

text \<open>What the local arrays hold when they are declared does not reach the result: every
  entry is loaded before it is read.\<close>

lemma step_dimension_same_locals:
  assumes "same_locals N L L'" "0 \<le> n" "n < N"
  shows "same_locals N (step_dimension rng pdf n h L) (step_dimension rng pdf n h L')"
proof -
  from assms have e: "localRandState L = localRandState L'"
    "localPrevSample L n = localPrevSample L' n" "localInvPrevPDF L n = localInvPrevPDF L' n"
    by (simp_all add: same_locals_def)
  have "localPrevSample (step_dimension rng pdf n h L) m = localPrevSample (step_dimension rng pdf n h L') m \<and>
        localInvPrevPDF (step_dimension rng pdf n h L) m = localInvPrevPDF (step_dimension rng pdf n h L') m"
    if "m \<in> {0..<N}" for m
  proof (cases "m = n")
    case True
    then show ?thesis by (simp add: step_dimension_same e)
  next
    case False
    with that assms(1) show ?thesis by (simp add: step_dimension_other same_locals_def)
  qed
  then show ?thesis
    by (simp add: same_locals_def step_dimension_stream e)
qed

lemma fold_steps_same_locals:
  assumes "same_locals N L L'" "\<forall>n\<in>set xs. int n < N"
  shows "same_locals N (fold (\<lambda>n. step_dimension rng (binding n) (int n) h) xs L)
                       (fold (\<lambda>n. step_dimension rng (binding n) (int n) h) xs L')"
  using assms by (induction xs arbitrary: L L') (simp_all add: step_dimension_same_locals)

lemma store_back_same_locals:
  assumes "same_locals N L L'"
  shows "store_back N T t L d = store_back N T t L' d"
proof -
  from assms have "\<And>n. n \<in> set [0..N - 1] \<Longrightarrow> localPrevSample L n = localPrevSample L' n"
    and r: "localRandState L = localRandState L'"
    by (auto simp: same_locals_def)
  then show ?thesis
    unfolding store_back_def for_loop_upto r
    by (intro fold_cong refl) simp
qed

lemma single_stack_irrelevant:
  "WarmupMetropolis_single rng N T pdf stack h iters t d =
   WarmupMetropolis_single rng N T pdf stack' h iters t d"
proof -
  let ?sweep = "fold (\<lambda>n. step_dimension rng pdf (int n) h) [0..<nat N]"
  have "same_locals N (load_single N T pdf t (d_prevSample d) (declare_locals stack (d_randState d t)))
                      (load_single N T pdf t (d_prevSample d) (declare_locals stack' (d_randState d t)))"
    by (simp add: same_locals_def load_single_at declare_locals_def)
  then have "same_locals N
       ((?sweep ^^ nat iters) (load_single N T pdf t (d_prevSample d) (declare_locals stack (d_randState d t))))
       ((?sweep ^^ nat iters) (load_single N T pdf t (d_prevSample d) (declare_locals stack' (d_randState d t))))"
    by (rule funpow_relation) (rule fold_steps_same_locals, auto)
  then show ?thesis
    unfolding single_as_sweeps by (rule store_back_same_locals)
qed

text \<open>
  Claim C8.  The pack that repeats one density \<open>nNucleons \<ge> 2\<close> times does not build.  It
  passes the \<^verbatim>\<open>static_assert\<close>; then the call \<^verbatim>\<open>WarmupCopy<totalThreads, 0, pdfs...>\<close>, and
  likewise \<^verbatim>\<open>WarmupGibbs<0, pdfs...>\<close>, instantiates the second overload down to the call with
  one density left, which fits both overloads and is ambiguous.  The single density builds
  the kernel of the first branch, so there is no second kernel whose output could be
  compared with it.
\<close>

theorem repeated_density_does_not_build:
  assumes "2 \<le> N"
  shows "WarmupMetropolis rng N T (replicate (nat N) f) = Inl AmbiguousOverload \<and>
         WarmupCopy T 0 (replicate (nat N) f) =
           (Inl AmbiguousOverload :: build_error + (int \<Rightarrow> (int \<Rightarrow> f32) \<Rightarrow> 's lane \<Rightarrow> 's lane)) \<and>
         WarmupGibbs rng 0 (replicate (nat N) f) = Inl AmbiguousOverload \<and>
         WarmupMetropolis rng N T [f] = Inr (WarmupMetropolis_single rng N T f)"
proof -
  from assms have n: "replicate (nat N) f \<noteq> []" "length (replicate (nat N) f) \<noteq> 1"
    "N = int (length (replicate (nat N) f))"
    by simp_all
  have "WarmupMetropolis rng N T (replicate (nat N) f) = Inl AmbiguousOverload"
    using n(1,3) by (subst WarmupMetropolis_else [OF n(2)]) simp
  moreover have "WarmupMetropolis rng N T [f] = Inr (WarmupMetropolis_single rng N T f)"
    using assms by (simp add: WarmupMetropolis_one)
  ultimately show ?thesis
    using n(1) by (simp add: WarmupCopy_unresolved WarmupGibbs_unresolved)
qed

theorem repeated_density_does_not_build_witness:
  "WarmupMetropolis (tape (\<lambda>k. f_one)) 2 1 [\<lambda>x. x, \<lambda>x. x] = Inl AmbiguousOverload \<and>
   WarmupGibbs (tape (\<lambda>k. f_one)) 0 [\<lambda>x. x, \<lambda>x. x] = Inl AmbiguousOverload \<and>
   WarmupMetropolis (tape (\<lambda>k. f_one)) 2 1 [\<lambda>x. x] =
     Inr (WarmupMetropolis_single (tape (\<lambda>k. f_one)) 2 1 (\<lambda>x. x))"
  using repeated_density_does_not_build [of 2 "tape (\<lambda>k. f_one)" 1 "\<lambda>x. x"]
  by (simp add: numeral_2_eq_2)

section \<open>Initialisation\<close>







section \<open>Rounding\<close>

text \<open>The integer rounding of the model agrees with rounding in the reals, is monotone, and
  is within half a unit in the last place of the exact result.\<close>

text \<open>The values of the floats that have a name.\<close>

lemma named_floats:
  "valof f_one = 1" "valof f_half = 1 / 2" "valof f_below_one = 1 - 1 / 2 ^ 24"
  "valof f_two_126 = 2 ^ 126" "valof f_huge = 133 * 2 ^ 120" "valof (f_zero False) = 0"
  by (simp_all add: valof_def mantissa_def exponent_def mag_def f_one_def f_half_def
        f_below_one_def f_two_126_def f_huge_def f_zero_def)

lemma round_half_even_real:
  assumes "0 < Q"
  shows "round_half_even P Q = round_real (of_int P / of_int Q)"
proof -
  let ?s = "real_of_int P / real_of_int Q"
  have fl: "\<lfloor>?s\<rfloor> = P div Q" by (simp add: floor_divide_of_int_eq)
  have "real_of_int P = real_of_int (P div Q) * real_of_int Q + real_of_int (P mod Q)"
    by (metis div_mult_mod_eq of_int_add of_int_mult)
  then have fr: "?s - of_int (P div Q) = real_of_int (P mod Q) / real_of_int Q"
    using assms by (simp add: field_simps)
  have a: "1 / 2 < real_of_int (P mod Q) / real_of_int Q \<longleftrightarrow> Q < 2 * (P mod Q)"
  proof -
    have "1 / 2 < real_of_int (P mod Q) / real_of_int Q \<longleftrightarrow> real_of_int Q < real_of_int (2 * (P mod Q))"
      using assms by (simp add: field_simps)
    also have "\<dots> \<longleftrightarrow> Q < 2 * (P mod Q)" by (rule of_int_less_iff)
    finally show ?thesis .
  qed
  have b: "real_of_int (P mod Q) / real_of_int Q = 1 / 2 \<longleftrightarrow> 2 * (P mod Q) = Q"
  proof -
    have "real_of_int (P mod Q) / real_of_int Q = 1 / 2 \<longleftrightarrow> real_of_int (2 * (P mod Q)) = real_of_int Q"
      using assms by (auto simp add: field_simps)
    also have "\<dots> \<longleftrightarrow> 2 * (P mod Q) = Q" by (rule of_int_eq_iff)
    finally show ?thesis .
  qed
  show ?thesis
    unfolding round_half_even_def round_real_def fl fr a b Let_def ..
qed

lemma round_real_mono: "s \<le> s' \<Longrightarrow> round_real s \<le> round_real s'"
proof -
  assume le: "s \<le> s'"
  then have f: "\<lfloor>s\<rfloor> \<le> \<lfloor>s'\<rfloor>" by (rule floor_mono)
  show ?thesis
  proof (cases "\<lfloor>s\<rfloor> = \<lfloor>s'\<rfloor>")
    case True
    with le show ?thesis by (auto simp: round_real_def)
  next
    case False
    with f have "\<lfloor>s\<rfloor> + 1 \<le> \<lfloor>s'\<rfloor>" by simp
    then show ?thesis by (auto simp: round_real_def)
  qed
qed

lemma round_real_error: "\<bar>real_of_int (round_real s) - s\<bar> \<le> 1 / 2"
  unfolding round_real_def by (auto simp: abs_le_iff)

lemma round_real_of_int [simp]: "round_real (of_int k) = k"
  by (simp add: round_real_def)

lemma round_real_le_int: "s \<le> of_int k \<Longrightarrow> round_real s \<le> k"
  using round_real_mono [of s "of_int k"] by simp

lemma round_real_ge_int: "of_int k \<le> s \<Longrightarrow> k \<le> round_real s"
  using round_real_mono [of "of_int k" s] by simp

lemma scale_quotient:
  assumes "B \<noteq> 0"
  shows "real_of_int (A * 2 ^ nat k) / real_of_int (B * 2 ^ nat (- k)) = real_of_int A / real_of_int B * 2 powi k"
proof (cases "0 \<le> k")
  case True
  then show ?thesis by (simp add: power_int_def)
next
  case False
  then show ?thesis by (simp add: power_int_def field_simps)
qed

lemma floor_log2_bounds:
  assumes "0 < P" "0 < Q"
  shows "2 powi (floor_log2 P Q) \<le> real_of_int P / real_of_int Q"
    and "real_of_int P / real_of_int Q < 2 powi (floor_log2 P Q + 1)"
proof -
  let ?x = "real_of_int P / real_of_int Q"
  define l where "l = bitlen P - bitlen Q"
  have bP: "1 \<le> bitlen P" "1 \<le> bitlen Q"
    using assms bitlen_nonneg [of P] bitlen_nonneg [of Q] bitlen_eq_zero_iff [of P] bitlen_eq_zero_iff [of Q]
    by linarith+
  from bitlen_bounds [OF assms(1)] have P: "2 powi (bitlen P - 1) \<le> real_of_int P" "real_of_int P < 2 powi (bitlen P)"
    using bP by (simp_all add: power_int_def flip: of_int_power_le_of_int_cancel_iff of_int_power_less_of_int_cancel_iff)
  from bitlen_bounds [OF assms(2)] have Q: "2 powi (bitlen Q - 1) \<le> real_of_int Q" "real_of_int Q < 2 powi (bitlen Q)"
    using bP by (simp_all add: power_int_def flip: of_int_power_le_of_int_cancel_iff of_int_power_less_of_int_cancel_iff)
  have Qpos: "0 < real_of_int Q" and Ppos: "0 < real_of_int P" using assms by simp_all
  have "?x < 2 powi (bitlen P) / 2 powi (bitlen Q - 1)"
    using P Q Ppos by (intro frac_less) simp_all
  also have "\<dots> = 2 powi (bitlen P - (bitlen Q - 1))"
    by (rule power_int_diff [symmetric]) simp
  also have "bitlen P - (bitlen Q - 1) = l + 1"
    by (simp add: l_def)
  finally have up: "?x < 2 powi (l + 1)" .
  have "l - 1 = bitlen P - 1 - bitlen Q"
    by (simp add: l_def)
  moreover have "(2::real) powi (bitlen P - 1 - bitlen Q) = 2 powi (bitlen P - 1) / 2 powi (bitlen Q)"
    by (rule power_int_diff) simp
  ultimately have "(2::real) powi (l - 1) = 2 powi (bitlen P - 1) / 2 powi (bitlen Q)"
    by (simp only:)
  also have "\<dots> \<le> ?x"
    using P Q Qpos Ppos by (intro frac_le) simp_all
  finally have lo: "2 powi (l - 1) \<le> ?x" .
  have test: "Q * 2 ^ nat l \<le> P * 2 ^ nat (- l) \<longleftrightarrow> 2 powi l \<le> ?x"
  proof -
    have "Q * 2 ^ nat l \<le> P * 2 ^ nat (- l) \<longleftrightarrow>
          real_of_int (Q * 2 ^ nat l) \<le> real_of_int (P * 2 ^ nat (- l))"
      by (simp only: of_int_le_iff)
    also have "\<dots> \<longleftrightarrow> 2 powi l \<le> ?x"
      using Qpos by (cases "0 \<le> l") (simp_all add: power_int_def field_simps)
    finally show ?thesis .
  qed
  have fl: "floor_log2 P Q = (if 2 powi l \<le> ?x then l else l - 1)"
    by (simp add: floor_log2_def l_def [symmetric] test Let_def)
  show "2 powi (floor_log2 P Q) \<le> ?x" using lo by (simp add: fl)
  show "?x < 2 powi (floor_log2 P Q + 1)" using up by (simp add: fl not_le)
qed

lemma round_mag_eq:
  assumes "0 < P" "0 < Q"
  shows "round_mag P Q = min inf_code ((round_exponent P Q + 126) * 2 ^ 23 + round_mantissa P Q)"
proof -
  let ?e = "round_exponent P Q"
  have Q: "0 < Q * 2 ^ nat (?e - 23)" using assms by simp
  have "round_half_even (P * 2 ^ nat (23 - ?e)) (Q * 2 ^ nat (?e - 23)) =
        round_real (real_of_int (P * 2 ^ nat (23 - ?e)) / real_of_int (Q * 2 ^ nat (- (23 - ?e))))"
    using round_half_even_real [OF Q, of "P * 2 ^ nat (23 - ?e)"] by simp
  also have "\<dots> = round_mantissa P Q"
    unfolding round_mantissa_def using assms by (subst scale_quotient) simp_all
  finally show ?thesis
    using assms by (simp add: round_mag_def round_exponent_def Let_def)
qed

lemma round_mag_nonneg_args:
  assumes "0 < P" "0 < Q"
  shows scaled_less: "real_of_int P / real_of_int Q * 2 powi (23 - round_exponent P Q) < 2 ^ 24"
    and scaled_nonneg: "0 \<le> real_of_int P / real_of_int Q * 2 powi (23 - round_exponent P Q)"
    and scaled_ge: "- 126 \<le> floor_log2 P Q \<Longrightarrow>
            2 ^ 23 \<le> real_of_int P / real_of_int Q * 2 powi (23 - round_exponent P Q)"
proof -
  let ?x = "real_of_int P / real_of_int Q"
  let ?e = "round_exponent P Q"
  have e: "floor_log2 P Q \<le> ?e" by (simp add: round_exponent_def)
  have "?x < 2 powi (floor_log2 P Q + 1)" by (rule floor_log2_bounds [OF assms])
  also have "\<dots> \<le> 2 powi (?e + 1)" using e by (intro power_int_increasing) simp_all
  finally have "?x * 2 powi (23 - ?e) < 2 powi (?e + 1) * 2 powi (23 - ?e)"
    by (intro mult_strict_right_mono) simp_all
  also have "\<dots> = 2 powi ((?e + 1) + (23 - ?e))"
    by (rule power_int_add [symmetric]) simp
  also have "\<dots> = 2 ^ 24" by simp
  finally show "?x * 2 powi (23 - ?e) < 2 ^ 24" .
  show "0 \<le> ?x * 2 powi (23 - ?e)" using assms by simp
  assume "- 126 \<le> floor_log2 P Q"
  then have ee: "?e = floor_log2 P Q" by (simp add: round_exponent_def)
  have "(2::real) ^ 23 = 2 powi (?e + (23 - ?e))" by simp
  also have "\<dots> = 2 powi ?e * 2 powi (23 - ?e)"
    by (rule power_int_add) simp
  also have "\<dots> \<le> ?x * 2 powi (23 - ?e)"
    unfolding ee using floor_log2_bounds(1) [OF assms] by (intro mult_right_mono) simp_all
  finally show "2 ^ 23 \<le> ?x * 2 powi (23 - ?e)" .
qed

lemma round_mantissa_range:
  assumes "0 < P" "0 < Q"
  shows "0 \<le> round_mantissa P Q" "round_mantissa P Q \<le> 2 ^ 24"
    and "- 126 \<le> floor_log2 P Q \<Longrightarrow> 2 ^ 23 \<le> round_mantissa P Q"
proof -
  show "0 \<le> round_mantissa P Q"
    unfolding round_mantissa_def using scaled_nonneg [OF assms] by (intro round_real_ge_int) simp
  show "round_mantissa P Q \<le> 2 ^ 24"
    unfolding round_mantissa_def using scaled_less [OF assms] by (intro round_real_le_int) simp
  assume "- 126 \<le> floor_log2 P Q"
  from scaled_ge [OF assms this] show "2 ^ 23 \<le> round_mantissa P Q"
    unfolding round_mantissa_def by (intro round_real_ge_int) simp
qed

lemma floor_log2_mono:
  assumes "0 < P" "0 < Q" "0 < P'" "0 < Q'"
    and "real_of_int P / real_of_int Q \<le> real_of_int P' / real_of_int Q'"
  shows "floor_log2 P Q \<le> floor_log2 P' Q'"
proof (rule ccontr)
  assume "\<not> floor_log2 P Q \<le> floor_log2 P' Q'"
  then have "floor_log2 P' Q' + 1 \<le> floor_log2 P Q" by simp
  then have "(2::real) powi (floor_log2 P' Q' + 1) \<le> 2 powi (floor_log2 P Q)"
    by (intro power_int_increasing) simp_all
  also have "\<dots> \<le> real_of_int P / real_of_int Q" by (rule floor_log2_bounds [OF assms(1,2)])
  also note assms(5)
  also have "real_of_int P' / real_of_int Q' < 2 powi (floor_log2 P' Q' + 1)"
    by (rule floor_log2_bounds [OF assms(3,4)])
  finally show False by simp
qed

lemma round_mag_mono:
  assumes "0 < P" "0 < Q" "0 < P'" "0 < Q'"
    and le: "real_of_int P / real_of_int Q \<le> real_of_int P' / real_of_int Q'"
  shows "round_mag P Q \<le> round_mag P' Q'"
proof -
  let ?e = "round_exponent P Q" and ?e' = "round_exponent P' Q'"
  have e: "?e \<le> ?e'"
    unfolding round_exponent_def using floor_log2_mono [OF assms] by simp
  have "(?e + 126) * 2 ^ 23 + round_mantissa P Q \<le> (?e' + 126) * 2 ^ 23 + round_mantissa P' Q'"
  proof (cases "?e = ?e'")
    case True
    have "round_mantissa P Q \<le> round_mantissa P' Q'"
      unfolding round_mantissa_def True
      by (intro round_real_mono mult_right_mono le) simp
    with True show ?thesis by simp
  next
    case False
    with e have lt: "?e + 1 \<le> ?e'" by simp
    then have "- 126 \<le> floor_log2 P' Q'"
      by (simp add: round_exponent_def max_def split: if_splits)
    from round_mantissa_range(3) [OF assms(3,4) this]
    have "(?e + 126) * 2 ^ 23 + round_mantissa P Q \<le> (?e + 126) * 2 ^ 23 + 2 ^ 24"
      using round_mantissa_range(2) [OF assms(1,2)] by simp
    also have "\<dots> = (?e + 1 + 126) * 2 ^ 23 + 2 ^ 23" by (simp add: algebra_simps)
    also have "\<dots> \<le> (?e' + 126) * 2 ^ 23 + 2 ^ 23" using lt by (intro add_right_mono mult_right_mono) simp_all
    also have "\<dots> \<le> (?e' + 126) * 2 ^ 23 + round_mantissa P' Q'"
      using \<open>2 ^ 23 \<le> round_mantissa P' Q'\<close> by simp
    finally show ?thesis .
  qed
  then show ?thesis
    unfolding round_mag_eq [OF assms(1,2)] round_mag_eq [OF assms(3,4)]
    by (simp add: min_le_iff_disj)
qed

lemma round_mag_range: "0 \<le> P \<Longrightarrow> 0 < Q \<Longrightarrow> 0 \<le> round_mag P Q \<and> round_mag P Q \<le> inf_code"
proof (cases "P = 0")
  case True
  then show ?thesis by (simp add: round_mag_def inf_code_def)
next
  case False
  assume "0 \<le> P" "0 < Q"
  with False have P: "0 < P" by simp
  have "- 126 \<le> round_exponent P Q" by (simp add: round_exponent_def)
  then have "0 \<le> (round_exponent P Q + 126) * 2 ^ 23" by simp
  with round_mantissa_range(1) [OF P \<open>0 < Q\<close>] show ?thesis
    unfolding round_mag_eq [OF P \<open>0 < Q\<close>] by (simp add: inf_code_def)
qed

lemma mag_F32: "0 \<le> n \<Longrightarrow> n < 2 ^ 31 \<Longrightarrow> mag (F32 s (word_of_int n)) = n"
  by (simp add: mag_def uint_word_of_int_eq take_bit_int_eq_self)

lemma mag_range: "0 \<le> mag x" "mag x < 2 ^ 31"
  using uint_bounded [of "magnitude x"] by (simp_all add: mag_def)

lemma mantissa_exponent_valmag:
  "real_of_int (mantissa x) * 2 powi (exponent x) = valmag (mag x)"
  by (simp add: mantissa_def exponent_def valmag_def)

lemma split_code:
  assumes "0 \<le> b" "b < 2 ^ 23"
  shows "(a * 2 ^ 23 + b) div 2 ^ 23 = (a::int)" "(a * 2 ^ 23 + b) mod 2 ^ 23 = b"
  using assms by (simp_all add: div_pos_pos_trivial)

lemma valmag_code:
  assumes "- 126 \<le> e" "0 \<le> m" "m \<le> 2 ^ 24" "e = - 126 \<or> 2 ^ 23 \<le> m"
  shows "valmag ((e + 126) * 2 ^ 23 + m) = real_of_int m * 2 powi (e - 23)"
proof -
  consider "m < 2 ^ 23" | "2 ^ 23 \<le> m" "m < 2 ^ 24" | "m = 2 ^ 24" using assms by linarith
  then show ?thesis
  proof cases
    case 1
    with assms have e: "e = - 126" by simp
    with 1 assms(2) show ?thesis by (simp add: valmag_def div_pos_pos_trivial)
  next
    case 2
    define b where "b = m - 2 ^ 23"
    have b: "0 \<le> b" "b < 2 ^ 23" using 2 by (simp_all add: b_def)
    have n: "(e + 126) * 2 ^ 23 + m = (e + 127) * 2 ^ 23 + b" by (simp add: b_def algebra_simps)
    have "e + 127 \<noteq> 0" using assms(1) by simp
    then show ?thesis
      unfolding n valmag_def split_code [OF b]
      by (simp add: b_def)
  next
    case 3
    have n: "(e + 126) * 2 ^ 23 + m = (e + 128) * 2 ^ 23 + 0" by (simp add: 3 algebra_simps)
    have ne: "e + 128 \<noteq> 0" using assms(1) by simp
    have "(2::real) powi (e - 22) = 2 powi (e - 23) * 2 powi 1"
      using power_int_add [of "2::real" "e - 23" 1] by simp
    then show ?thesis
      unfolding n valmag_def split_code [of 0, simplified]
      using ne by (simp add: 3)
  qed
qed

lemma valmag_round_mag:
  assumes "0 < P" "0 < Q" "round_mag P Q < inf_code"
  shows "valmag (round_mag P Q) = real_of_int (round_mantissa P Q) * 2 powi (round_exponent P Q - 23)"
proof -
  have e: "- 126 \<le> round_exponent P Q" by (simp add: round_exponent_def)
  have "round_exponent P Q = - 126 \<or> 2 ^ 23 \<le> round_mantissa P Q"
  proof (cases "- 126 \<le> floor_log2 P Q")
    case True
    from round_mantissa_range(3) [OF assms(1,2) this] show ?thesis ..
  next
    case False
    then show ?thesis by (simp add: round_exponent_def)
  qed
  from valmag_code [OF e round_mantissa_range(1,2) [OF assms(1,2)] this] assms(3) show ?thesis
    unfolding round_mag_eq [OF assms(1,2)] by (simp add: min_def split: if_splits)
qed

lemma valmag_nonneg: "0 \<le> n \<Longrightarrow> 0 \<le> valmag n"
  by (simp add: valmag_def pos_imp_zdiv_nonneg_iff)

lemma valmag_mono:
  assumes "0 \<le> n" "n \<le> n'"
  shows "valmag n \<le> valmag n'"
proof -
  define E F E' F' where "E = n div 2 ^ 23" and "F = n mod 2 ^ 23"
    and "E' = n' div 2 ^ 23" and "F' = n' mod 2 ^ 23"
  have F: "0 \<le> F" "F < 2 ^ 23" "0 \<le> F'" "F' < 2 ^ 23" by (simp_all add: F_def F'_def)
  have E: "0 \<le> E" "E \<le> E'"
    using assms by (simp_all add: E_def E'_def pos_imp_zdiv_nonneg_iff zdiv_mono1)
  have n: "n = E * 2 ^ 23 + F" "n' = E' * 2 ^ 23 + F'"
    by (simp_all add: E_def F_def E'_def F'_def)
  show ?thesis
  proof (cases "E = E'")
    case True
    with assms n have "F \<le> F'" by simp
    with True show ?thesis
      unfolding valmag_def E_def [symmetric] F_def [symmetric] E'_def [symmetric] F'_def [symmetric]
      by (auto intro!: mult_right_mono)
  next
    case False
    with E have lt: "E + 1 \<le> E'" by simp
    have up: "valmag n \<le> 2 powi (E - 126)"
    proof (cases "E = 0")
      case True
      have "real_of_int F * 2 powi (- 149) \<le> 2 ^ 23 * 2 powi (- 149)"
        using F by (intro mult_right_mono) simp_all
      also have "\<dots> = 2 powi (23 + (- 149))"
        using power_int_add [of "2::real" 23 "- 149"] by simp
      finally show ?thesis
        unfolding valmag_def E_def [symmetric] F_def [symmetric] by (simp add: True)
    next
      case False
      have "real_of_int (2 ^ 23 + F) * 2 powi (E - 150) \<le> 2 ^ 24 * 2 powi (E - 150)"
        using F by (intro mult_right_mono) simp_all
      also have "\<dots> = 2 powi (24 + (E - 150))"
        using power_int_add [of "2::real" 24 "E - 150"] by simp
      also have "24 + (E - 150) = E - 126" by simp
      finally show ?thesis
        unfolding valmag_def E_def [symmetric] F_def [symmetric] by (simp add: False)
    qed
    have E'0: "E' \<noteq> 0" using lt E by simp
    have "(2::real) powi (E - 126) \<le> 2 powi (E' - 127)"
      using lt E by (intro power_int_increasing) simp_all
    also have "\<dots> = 2 powi (23 + (E' - 150))" by simp
    also have "\<dots> = 2 ^ 23 * 2 powi (E' - 150)"
      using power_int_add [of "2::real" 23 "E' - 150"] by simp
    also have "\<dots> \<le> real_of_int (2 ^ 23 + F') * 2 powi (E' - 150)"
      using F by (intro mult_right_mono) simp_all
    also have "\<dots> = valmag n'"
      unfolding valmag_def E'_def [symmetric] F'_def [symmetric] by (simp add: E'0)
    finally show ?thesis using up by simp
  qed
qed

lemma valmag_pos: "0 < n \<Longrightarrow> 0 < valmag n"
proof -
  assume n: "0 < n"
  have "n mod 2 ^ 23 = n" if "n div 2 ^ 23 = 0"
    using that by (metis add.left_neutral mult_zero_right mult_div_mod_eq)
  moreover have "0 \<le> n mod 2 ^ 23" by simp
  ultimately show ?thesis using n by (auto simp: valmag_def intro!: mult_pos_pos add_pos_nonneg)
qed

lemma round_mag_relative_error:
  assumes "0 < P" "0 < Q" "round_mag P Q < inf_code"
    and normal: "2 powi (- 126) \<le> real_of_int P / real_of_int Q"
  shows "real_of_int P / real_of_int Q * (1 - 1 / 2 ^ 24) \<le> valmag (round_mag P Q)"
proof -
  let ?x = "real_of_int P / real_of_int Q"
  let ?e = "round_exponent P Q"
  let ?s = "?x * 2 powi (23 - ?e)"
  have "(2::real) powi (- 126) < 2 powi (floor_log2 P Q + 1)"
    by (rule le_less_trans [OF normal floor_log2_bounds(2) [OF assms(1,2)]])
  then have fl: "- 126 \<le> floor_log2 P Q"
    by (smt (verit) power_int_increasing)
  from scaled_ge [OF assms(1,2) fl] have s: "2 ^ 23 \<le> ?s" .
  have "\<bar>real_of_int (round_mantissa P Q) - ?s\<bar> \<le> 1 / 2"
    unfolding round_mantissa_def by (rule round_real_error)
  then have "?s - 1 / 2 \<le> real_of_int (round_mantissa P Q)" by linarith
  moreover have "t * (1 - 1 / 2 ^ 24) \<le> t - 1 / 2" if "2 ^ 23 \<le> t" for t :: real
    using that by simp
  from this [OF s] have "?s * (1 - 1 / 2 ^ 24) \<le> ?s - 1 / 2" .
  ultimately have "?s * (1 - 1 / 2 ^ 24) \<le> real_of_int (round_mantissa P Q)" by linarith
  then have le: "?s * (1 - 1 / 2 ^ 24) * 2 powi (?e - 23) \<le> real_of_int (round_mantissa P Q) * 2 powi (?e - 23)"
    by (intro mult_right_mono) simp_all
  have "(2::real) powi (23 - ?e) * 2 powi (?e - 23) = 2 powi ((23 - ?e) + (?e - 23))"
    by (rule power_int_add [symmetric]) simp
  then have ab: "(2::real) powi (23 - ?e) * 2 powi (?e - 23) = 1" by simp
  have "?s * (1 - 1 / 2 ^ 24) * 2 powi (?e - 23) =
        ?x * (1 - 1 / 2 ^ 24) * (2 powi (23 - ?e) * 2 powi (?e - 23))"
    by (simp only: mult_ac)
  then have "?x * (1 - 1 / 2 ^ 24) = ?s * (1 - 1 / 2 ^ 24) * 2 powi (?e - 23)"
    by (simp only: ab mult_1_right)
  also note le
  finally show ?thesis
    unfolding valmag_round_mag [OF assms(1-3)] .
qed

lemma inf_code_less: "inf_code < 2 ^ 31" "0 \<le> inf_code" "inf_code = 2139095040"
  by (simp_all add: inf_code_def)

lemma consts_mag [simp]:
  "mag f_one = 127 * 2 ^ 23" "mag (f_inf s) = inf_code" "mag (f_zero s) = 0"
  "mag f_two_126 = 253 * 2 ^ 23" "mag f_nan = inf_code + 2 ^ 22"
  by (simp_all add: f_one_def f_inf_def f_zero_def f_two_126_def f_nan_def mag_def inf_code_def)

lemma consts_sign [simp]:
  "sign_bit f_one = False" "sign_bit (f_inf s) = s" "sign_bit (f_zero s) = s"
  "sign_bit f_two_126 = False" "sign_bit f_nan = False"
  by (simp_all add: f_one_def f_inf_def f_zero_def f_two_126_def f_nan_def)

lemma consts_class [simp]:
  "\<not> is_nan f_one" "\<not> is_inf f_one" "\<not> is_zero f_one"
  "\<not> is_nan (f_inf s)" "is_inf (f_inf s)" "\<not> is_zero (f_inf s)"
  "\<not> is_nan (f_zero s)" "\<not> is_inf (f_zero s)" "is_zero (f_zero s)"
  "is_nan f_nan"
  by (simp_all add: is_nan_def is_inf_def is_zero_def inf_code_def)

lemma f_one_fields [simp]: "mantissa f_one = 2 ^ 23" "exponent f_one = - 23"
  by (simp_all add: mantissa_def exponent_def)

lemma valmag_two_126: "valmag (253 * 2 ^ 23) = 2 powi 126"
  by (simp add: valmag_def)

lemma round_below_one: "round_mag (2 ^ 24 - 1) (2 ^ 24) = 127 * 2 ^ 23 - 1"
  by code_simp

lemma mantissa_pos: "0 < mag x \<Longrightarrow> 0 < mantissa x"
proof -
  assume n: "0 < mag x"
  have "mag x mod 2 ^ 23 = mag x" if "mag x div 2 ^ 23 = 0"
    using that by (metis add.left_neutral mult_zero_right mult_div_mod_eq)
  moreover have "0 \<le> mag x mod 2 ^ 23" by simp
  ultimately show ?thesis using n by (auto simp: mantissa_def intro: add_pos_nonneg)
qed

lemma f_round_mag: "0 \<le> P \<Longrightarrow> 0 < Q \<Longrightarrow> mag (f_round s P Q) = round_mag P Q"
  using round_mag_range [of P Q] inf_code_less by (simp add: f_round_def mag_F32)

lemma fdiv_one_finite:
  assumes "\<not> sign_bit p" "0 < mag p" "mag p < inf_code"
  shows "\<exists>P Q. 0 < P \<and> 0 < Q \<and> fdiv f_one p = f_round False P Q \<and>
               real_of_int P / real_of_int Q = 1 / valmag (mag p)"
proof -
  define k where "k = exponent f_one - exponent p"
  define P where "P = mantissa f_one * 2 ^ nat k"
  define Q where "Q = mantissa p * 2 ^ nat (- k)"
  have m: "0 < mantissa p" using assms(2) by (rule mantissa_pos)
  have c: "\<not> is_nan p" "\<not> is_zero p" "\<not> is_inf p"
    using assms by (simp_all add: is_nan_def is_zero_def is_inf_def)
  have 1: "fdiv f_one p = f_round False P Q"
    using c assms(1) by (simp add: fdiv_def Let_def P_def Q_def k_def)
  have "real_of_int P / real_of_int Q = real_of_int (mantissa f_one) / real_of_int (mantissa p) * 2 powi k"
    unfolding P_def Q_def using m by (intro scale_quotient) simp
  also have "\<dots> = 2 ^ 23 * 2 powi (- 23 - exponent p) / real_of_int (mantissa p)"
    by (simp add: k_def)
  also have "(2::real) ^ 23 * 2 powi (- 23 - exponent p) = 2 powi (23 + (- 23 - exponent p))"
    using power_int_add [of "2::real" 23 "- 23 - exponent p"] by simp
  also have "\<dots> = 1 / 2 powi (exponent p)"
    by (simp add: power_int_minus_divide)
  finally have "real_of_int P / real_of_int Q = 1 / (real_of_int (mantissa p) * 2 powi (exponent p))"
    by (simp add: field_simps)
  then have 2: "real_of_int P / real_of_int Q = 1 / valmag (mag p)"
    by (simp only: mantissa_exponent_valmag)
  have "0 < P" "0 < Q" using m by (simp_all add: P_def Q_def)
  with 1 2 show ?thesis by blast
qed

lemma fmul_finite:
  assumes "0 < mag a" "mag a < inf_code" "0 < mag b" "mag b < inf_code"
  shows "\<exists>P Q. 0 < P \<and> 0 < Q \<and> fmul a b = f_round (sign_bit a \<noteq> sign_bit b) P Q \<and>
               real_of_int P / real_of_int Q = valmag (mag a) * valmag (mag b)"
proof -
  define k where "k = exponent a + exponent b"
  define P where "P = mantissa a * mantissa b * 2 ^ nat k"
  define Q :: int where "Q = 2 ^ nat (- k)"
  have m: "0 < mantissa a" "0 < mantissa b" using assms by (simp_all add: mantissa_pos)
  have c: "\<not> is_nan a" "\<not> is_zero a" "\<not> is_inf a" "\<not> is_nan b" "\<not> is_zero b" "\<not> is_inf b"
    using assms by (simp_all add: is_nan_def is_zero_def is_inf_def)
  have 1: "fmul a b = f_round (sign_bit a \<noteq> sign_bit b) P Q"
    using c by (simp add: fmul_def Let_def P_def Q_def k_def)
  have "real_of_int P / real_of_int Q =
        real_of_int (mantissa a * mantissa b * 2 ^ nat k) / real_of_int (1 * 2 ^ nat (- k))"
    by (simp add: P_def Q_def)
  also have "\<dots> = real_of_int (mantissa a * mantissa b) / real_of_int 1 * 2 powi k"
    by (intro scale_quotient) simp
  also have "(2::real) powi k = 2 powi (exponent a) * 2 powi (exponent b)"
    unfolding k_def by (rule power_int_add) simp
  finally have "real_of_int P / real_of_int Q =
      (real_of_int (mantissa a) * 2 powi (exponent a)) * (real_of_int (mantissa b) * 2 powi (exponent b))"
    by simp
  then have 2: "real_of_int P / real_of_int Q = valmag (mag a) * valmag (mag b)"
    by (simp only: mantissa_exponent_valmag)
  have "0 < P" "0 < Q" using m by (simp_all add: P_def Q_def)
  with 1 2 show ?thesis by blast
qed

lemma fless_zero: "fless (f_zero False) p \<longleftrightarrow> \<not> is_nan p \<and> \<not> sign_bit p \<and> 0 < mag p"
  using mag_range(1) [of p] by (auto simp: fless_def order_key_def)

lemma fge_positive:
  assumes "fge q p" "\<not> sign_bit p" "0 < mag p"
  shows "\<not> sign_bit q" "mag p \<le> mag q" "mag q \<le> inf_code"
  using assms mag_range(1) [of q] by (auto simp: fge_def order_key_def is_nan_def split: if_splits)

lemma fmul_inf_right:
  assumes "\<not> is_nan q" "0 < mag q"
  shows "fmul q (f_inf s) = f_inf (sign_bit q \<noteq> s)"
  using assms by (simp add: fmul_def is_zero_def inf_code_def)

lemma fmul_inf_left:
  assumes "is_inf q" "0 < mag c" "mag c < inf_code"
  shows "fmul q c = f_inf (sign_bit q \<noteq> sign_bit c)"
  using assms by (simp add: fmul_def is_zero_def is_nan_def is_inf_def)

lemma ratio_large:
  assumes p: "fless (f_zero False) p" "fge f_two_126 p" and q: "fge q p"
  shows "\<not> is_nan (fmul q (fdiv f_one p)) \<and> \<not> sign_bit (fmul q (fdiv f_one p)) \<and>
         127 * 2 ^ 23 - 1 \<le> mag (fmul q (fdiv f_one p))"
proof -
  from p(1) have P: "\<not> sign_bit p" "0 < mag p" by (simp_all add: fless_zero)
  from p(2) P have p126: "mag p \<le> 253 * 2 ^ 23" by (simp add: fge_def order_key_def)
  then have pfin: "mag p < inf_code" by (simp add: inf_code_def)
  from fge_positive [OF q P] have Q: "\<not> sign_bit q" "mag p \<le> mag q" "mag q \<le> inf_code" .
  with P have q0: "0 < mag q" by simp
  from q have qn: "\<not> is_nan q" by (simp add: fge_def)
  from fdiv_one_finite [OF P pfin] obtain P1 Q1 where
    1: "0 < P1" "0 < Q1" "fdiv f_one p = f_round False P1 Q1"
       "real_of_int P1 / real_of_int Q1 = 1 / valmag (mag p)" by blast
  let ?c = "fdiv f_one p"
  have mc: "mag ?c = round_mag P1 Q1" using 1 by (simp add: f_round_mag)
  have sc: "\<not> sign_bit ?c" using 1 by (simp add: f_round_def)
  have vp: "0 < valmag (mag p)" using P by (simp add: valmag_pos)
  have "valmag (mag p) \<le> valmag (253 * 2 ^ 23)" using p126 P by (intro valmag_mono) simp_all
  then have vp126: "valmag (mag p) \<le> 2 powi 126" by (simp only: valmag_two_126)
  have normal: "2 powi (- 126) \<le> real_of_int P1 / real_of_int Q1"
  proof -
    have "(2::real) powi (- 126) = 1 / 2 powi 126" by (simp add: power_int_minus_divide)
    also have "\<dots> \<le> 1 / valmag (mag p)" using vp vp126 by (intro divide_left_mono) simp_all
    finally show ?thesis by (simp only: 1)
  qed
  show ?thesis
  proof (cases "round_mag P1 Q1 = inf_code")
    case True
    then have "?c = f_inf False" by (simp add: 1 f_round_def f_inf_def)
    with qn q0 Q show ?thesis by (simp add: fmul_inf_right inf_code_def)
  next
    case False
    with round_mag_range [of P1 Q1] 1 have cfin: "round_mag P1 Q1 < inf_code" by simp
    have vc: "1 / valmag (mag p) * (1 - 1 / 2 ^ 24) \<le> valmag (mag ?c)"
      using round_mag_relative_error [OF 1(1,2) cfin normal] unfolding 1(4) mc .
    have "0 < 1 / valmag (mag p) * (1 - 1 / 2 ^ 24)" using vp by simp
    with vc have vcpos: "0 < valmag (mag ?c)" by linarith
    have c0: "0 < mag ?c"
    proof (rule ccontr)
      assume "\<not> 0 < mag ?c"
      with mag_range(1) [of ?c] have "mag ?c = 0" by simp
      with vcpos show False by (simp add: valmag_def)
    qed
    have cf: "mag ?c < inf_code" using cfin mc by simp
    show ?thesis
    proof (cases "mag q = inf_code")
      case True
      then have "is_inf q" by (simp add: is_inf_def)
      from fmul_inf_left [OF this c0 cf] Q sc show ?thesis by (simp add: inf_code_def)
    next
      case False
      with Q have qf: "mag q < inf_code" by simp
      from fmul_finite [OF q0 qf c0 cf] obtain P3 Q3 where
        3: "0 < P3" "0 < Q3" "fmul q ?c = f_round (sign_bit q \<noteq> sign_bit ?c) P3 Q3"
           "real_of_int P3 / real_of_int Q3 = valmag (mag q) * valmag (mag ?c)" by blast
      have "valmag (mag p) \<le> valmag (mag q)" using P Q by (intro valmag_mono) simp_all
      then have "valmag (mag p) * valmag (mag ?c) \<le> valmag (mag q) * valmag (mag ?c)"
        using vcpos by (intro mult_right_mono) simp_all
      moreover have "valmag (mag p) * (1 / valmag (mag p) * (1 - 1 / 2 ^ 24)) \<le> valmag (mag p) * valmag (mag ?c)"
        using vc vp by (intro mult_left_mono) simp_all
      moreover have "valmag (mag p) * (1 / valmag (mag p) * (1 - 1 / 2 ^ 24)) = 1 - 1 / 2 ^ 24"
        using vp by simp
      ultimately have "1 - 1 / 2 ^ 24 \<le> real_of_int P3 / real_of_int Q3"
        unfolding 3 by linarith
      moreover have "real_of_int (2 ^ 24 - 1) / real_of_int (2 ^ 24) = 1 - 1 / 2 ^ 24" by simp
      ultimately have "real_of_int (2 ^ 24 - 1) / real_of_int (2 ^ 24) \<le> real_of_int P3 / real_of_int Q3"
        by (simp only:)
      then have "round_mag (2 ^ 24 - 1) (2 ^ 24) \<le> round_mag P3 Q3"
        using 3 by (intro round_mag_mono) simp_all
      then have "127 * 2 ^ 23 - 1 \<le> round_mag P3 Q3" by (simp only: round_below_one)
      moreover have "mag (fmul q ?c) = round_mag P3 Q3" using 3 by (simp add: f_round_mag)
      moreover have "mag (fmul q ?c) \<le> inf_code"
        using round_mag_range [of P3 Q3] 3 by (simp add: f_round_mag)
      ultimately show ?thesis using Q sc by (simp add: 3 f_round_def is_nan_def)
    qed
  qed
qed

lemma fge_ratio:
  assumes "fless (f_zero False) p" "fge f_two_126 p" "fge q p" "fless u f_one"
  shows "fge (fmul q (fdiv f_one p)) u"
proof -
  from ratio_large [OF assms(1-3)] have r: "\<not> is_nan (fmul q (fdiv f_one p))"
    "\<not> sign_bit (fmul q (fdiv f_one p))" "127 * 2 ^ 23 - 1 \<le> mag (fmul q (fdiv f_one p))" by simp_all
  from assms(4) have "\<not> is_nan u" "order_key u < 127 * 2 ^ 23"
    by (simp_all add: fless_def order_key_def)
  with r show ?thesis by (simp add: fge_def order_key_def)
qed

section \<open>Proposals of no lower density\<close>

text \<open>
  Claim C3, as the code has it.  The cache holds the rounded reciprocal of the current
  density, so the ratio of a proposal of equal density can round to \<open>1 - 2\<^sup>-\<^sup>2\<^sup>4\<close>, just
  below 1; a density above \<open>2\<^sup>1\<^sup>2\<^sup>6\<close> has a subnormal reciprocal, which loses more, and an
  infinite density has the reciprocal 0 and the ratio NaN.  What holds: when the cache is
  \<open>1 / density(sample)\<close>, that density is positive and at most \<open>2\<^sup>1\<^sup>2\<^sup>6\<close>, and the density
  at the proposal is not lower, the step accepts for every uniform draw below 1.
\<close>

theorem accepts_density_not_lower:
  assumes "c = fdiv f_one (pdf x)"
    and "fless (f_zero False) (pdf x)" and "fge f_two_126 (pdf x)"
    and "fge (pdf (fadd x (fmul h (fst (curand_normal rng s))))) (pdf x)"
    and "fless (fst (curand_uniform rng (snd (curand_normal rng s)))) f_one"
  shows "MetropolisHastingsStep rng pdf x c h s =
           (fadd x (fmul h (fst (curand_normal rng s))),
            fdiv f_one (pdf (fadd x (fmul h (fst (curand_normal rng s))))),
            snd (curand_uniform rng (snd (curand_normal rng s))))"
proof -
  have "fge (fmul (pdf (fadd x (fmul h (fst (curand_normal rng s))))) (fdiv f_one (pdf x)))
            (fst (curand_uniform rng (snd (curand_normal rng s))))"
    using assms(2-5) by (rule fge_ratio)
  then show ?thesis
    by (simp add: step_unfold assms(1) Let_def)
qed

theorem accepts_density_not_lower_witness:
  "MetropolisHastingsStep (tape (\<lambda>k. if k = 0 then f_one else f_below_one)) (\<lambda>x. float_of_int 41)
     f_one (fdiv f_one (float_of_int 41)) f_one 0 =
   (fadd f_one (fmul f_one f_one), fdiv f_one (float_of_int 41), 2)"
proof -
  have "fless (f_zero False) (float_of_int 41)" "fge f_two_126 (float_of_int 41)"
    "fge (float_of_int 41) (float_of_int 41)" "fless f_below_one f_one"
    by code_simp+
  then show ?thesis
    using accepts_density_not_lower [of "fdiv f_one (float_of_int 41)" "\<lambda>x. float_of_int 41" f_one
        f_one "tape (\<lambda>k. if k = 0 then f_one else f_below_one)" 0]
    by (simp add: tape_def)
qed

text \<open>
  The claim as stated fails.  With the constant density \<open>133 * 2\<^sup>1\<^sup>2\<^sup>0\<close> the proposal 2.0 is
  rejected on the uniform draw \<open>1 - 2\<^sup>-\<^sup>2\<^sup>4\<close>, which is below 1.  With the constant density 41
  the ratio \<open>41 * (1 / 41)\<close> is below 1 and the proposal is rejected on the draw 1.0.  With
  the constant density \<open>+\<infinity>\<close> the proposal is rejected on the draw 0.
\<close>

theorem always_accepts_counterexample:
  "fless (f_zero False) (const_pdf f_huge f_one) \<and>
   fge (const_pdf f_huge (fadd f_one (fmul f_one f_one))) (const_pdf f_huge f_one) \<and>
   fless f_below_one f_one \<and>
   MetropolisHastingsStep (two_draws f_one f_below_one) (const_pdf f_huge)
     f_one (fdiv f_one (const_pdf f_huge f_one)) f_one 0 = (f_one, fdiv f_one f_huge, 2) \<and>
   fadd f_one (fmul f_one f_one) \<noteq> f_one \<and>
   fless (f_zero False) (float_of_int 41) \<and>
   \<not> fge (fmul (float_of_int 41) (fdiv f_one (float_of_int 41))) f_one \<and>
   MetropolisHastingsStep (two_draws f_one f_one) (const_pdf (float_of_int 41))
     f_one (fdiv f_one (float_of_int 41)) f_one 0 = (f_one, fdiv f_one (float_of_int 41), 2) \<and>
   fless (f_zero False) (f_inf False) \<and> fge (f_inf False) (f_inf False) \<and>
   MetropolisHastingsStep (two_draws f_one (f_zero False)) (const_pdf (f_inf False))
     f_one (fdiv f_one (f_inf False)) f_one 0 = (f_one, fdiv f_one (f_inf False), 2)"
  by code_simp

section \<open>A density of zero at the current sample\<close>

lemma fge_inf_ratio:
  assumes "fge u (f_zero False)"
  shows "fge (fmul q (f_inf False)) u \<longleftrightarrow> fless (f_zero False) q"
proof -
  from assms have u: "\<not> is_nan u" "0 \<le> order_key u" by (simp_all add: fge_def order_key_def)
  then have u': "order_key u \<le> inf_code"
    using mag_range(1) [of u] by (auto simp: order_key_def is_nan_def split: if_splits)
  show ?thesis
  proof (cases "is_nan q \<or> is_zero q")
    case True
    then have "fmul q (f_inf False) = f_nan" by (auto simp: fmul_def)
    with True show ?thesis by (auto simp: fge_def fless_zero is_zero_def)
  next
    case False
    then have m: "0 < mag q" using mag_range(1) [of q] by (auto simp: is_zero_def)
    from False have "fmul q (f_inf False) = f_inf (sign_bit q)"
      by (simp add: fmul_def Let_def inf_code_def is_zero_def)
    with False m u u' show ?thesis
      by (auto simp: fge_def fless_zero order_key_def inf_code_def)
  qed
qed

text \<open>
  Claim C9, as the code has it.  A density of \<open>+0\<close> at the current sample makes the cached
  inverse density \<open>+\<infinity>\<close>; nothing clamps it.  The next step, for any uniform draw \<open>u \<ge> 0\<close>,
  accepts exactly when the density at the proposal is positive (the ratio is then \<open>+\<infinity>\<close>); a
  proposal of density zero, negative or NaN is rejected (the ratio is NaN or \<open>-\<infinity>\<close>) and the
  cache stays \<open>+\<infinity>\<close>.  On acceptance the cache becomes \<open>1 / proposalDensity\<close>, as in any step.
\<close>

theorem zero_density_step:
  "(is_zero p \<and> \<not> sign_bit p \<longrightarrow> fdiv f_one p = f_inf False) \<and>
   (fge (fst (curand_uniform rng (snd (curand_normal rng s)))) (f_zero False) \<longrightarrow>
      MetropolisHastingsStep rng pdf x (f_inf False) h s =
        (if fless (f_zero False) (pdf (fadd x (fmul h (fst (curand_normal rng s)))))
         then (fadd x (fmul h (fst (curand_normal rng s))),
               fdiv f_one (pdf (fadd x (fmul h (fst (curand_normal rng s))))),
               snd (curand_uniform rng (snd (curand_normal rng s))))
         else (x, f_inf False, snd (curand_uniform rng (snd (curand_normal rng s))))))"
proof (intro conjI impI)
  assume "is_zero p \<and> \<not> sign_bit p"
  then show "fdiv f_one p = f_inf False"
    by (auto simp: fdiv_def Let_def is_nan_def is_zero_def inf_code_def is_inf_def)
next
  assume "fge (fst (curand_uniform rng (snd (curand_normal rng s)))) (f_zero False)"
  from fge_inf_ratio [OF this]
  show "MetropolisHastingsStep rng pdf x (f_inf False) h s =
        (if fless (f_zero False) (pdf (fadd x (fmul h (fst (curand_normal rng s)))))
         then (fadd x (fmul h (fst (curand_normal rng s))),
               fdiv f_one (pdf (fadd x (fmul h (fst (curand_normal rng s))))),
               snd (curand_uniform rng (snd (curand_normal rng s))))
         else (x, f_inf False, snd (curand_uniform rng (snd (curand_normal rng s)))))"
    by (simp add: step_unfold Let_def)
qed

theorem zero_density_step_witness:
  "fdiv f_one (f_zero False) = f_inf False \<and>
   MetropolisHastingsStep (tape (\<lambda>k. if k = 0 then f_one else f_half)) (\<lambda>x. x) f_one (f_inf False) f_one 0 =
     (fadd f_one (fmul f_one f_one), fdiv f_one (fadd f_one (fmul f_one f_one)), 2)"
proof -
  have a: "fge f_half (f_zero False)" "fless (f_zero False) (fadd f_one (fmul f_one f_one))"
    by code_simp+
  have "fdiv f_one (f_zero False) = f_inf False"
    using zero_density_step [where p = "f_zero False", THEN conjunct1] by simp
  moreover have "MetropolisHastingsStep (tape (\<lambda>k. if k = 0 then f_one else f_half)) (\<lambda>x. x) f_one (f_inf False) f_one 0 =
     (fadd f_one (fmul f_one f_one), fdiv f_one (fadd f_one (fmul f_one f_one)), 2)"
    using zero_density_step [where rng = "tape (\<lambda>k. if k = 0 then f_one else f_half)" and s = 0
        and pdf = "\<lambda>x. x" and x = f_one and h = f_one, THEN conjunct2] a
    by (simp add: tape_def)
  ultimately show ?thesis by simp
qed

text \<open>
  The claim as stated fails: where the density is zero everywhere the proposal 2.0 is
  rejected even on the draw 0; and after a proposal of density 1 has been accepted from a
  sample of density zero, the cache is 1 and the next proposal, of density 0.5, is rejected
  on the draw \<open>1 - 2\<^sup>-\<^sup>2\<^sup>4\<close>.
\<close>

theorem zero_density_counterexample:
  "is_zero (const_pdf (f_zero False) f_one) \<and>
   fdiv f_one (const_pdf (f_zero False) f_one) = f_inf False \<and>
   MetropolisHastingsStep (two_draws f_one (f_zero False)) (const_pdf (f_zero False))
     f_one (f_inf False) f_one 0 = (f_one, f_inf False, 2) \<and>
   fadd f_one (fmul f_one f_one) \<noteq> f_one \<and>
   is_zero (bump_pdf f_one) \<and>
   MetropolisHastingsStep bump_stream bump_pdf f_one (f_inf False) f_one 0 = (float_of_int 2, f_one, 2) \<and>
   MetropolisHastingsStep bump_stream bump_pdf (float_of_int 2) f_one f_one 2 = (float_of_int 2, f_one, 4) \<and>
   fadd (float_of_int 2) (fmul f_one f_one) \<noteq> float_of_int 2"
  by code_simp

section \<open>The initial value\<close>





end
